theory Spec2Isabelle
  imports Main "HOL-Library.Sublist" "HOL-Library.Multiset" "HOL-Library.AList"
begin

section \<open>Strings\<close>

text \<open>
  A Python \<open>str\<close> is modelled as a \<open>string\<close>: a list of characters, each standing for
  one code point (only code points below 256 are represented). The character classes
  are the literal ranges the script's patterns use.
\<close>

definition lower_letters :: string where
  "lower_letters = ''abcdefghijklmnopqrstuvwxyz''"

definition upper_letters :: string where
  "upper_letters = ''ABCDEFGHIJKLMNOPQRSTUVWXYZ''"

definition digits :: string where
  "digits = ''0123456789''"

text \<open>The class \<open>[a-zA-Z]\<close>.\<close>

definition letters :: string where
  "letters = lower_letters @ upper_letters"

text \<open>The class \<open>[a-zA-Z0-9]\<close>.\<close>

definition alnum :: string where
  "alnum = lower_letters @ upper_letters @ digits"

text \<open>
  \<open>str.lower()\<close> and the upper-casing of \<open>str.capitalize()\<close>, on the ASCII letters. The
  script lower-cases a module name only after every character outside \<open>[a-zA-Z0-9]\<close>
  has become an underscore, and capitalizes only segments of that module name, so no
  other letter reaches these two functions there; an answer to a yes/no prompt is
  lower-cased as well, and no character outside ASCII lower-cases to one of \<open>y\<close>,
  \<open>e\<close>, \<open>s\<close>.
\<close>

definition to_lower :: "char \<Rightarrow> char" where
  "to_lower c = (case map_of (zip upper_letters lower_letters) c of Some d \<Rightarrow> d | None \<Rightarrow> c)"

definition to_upper :: "char \<Rightarrow> char" where
  "to_upper c = (case map_of (zip lower_letters upper_letters) c of Some d \<Rightarrow> d | None \<Rightarrow> c)"

definition lower :: "string \<Rightarrow> string" where
  "lower s = map to_lower s"

text \<open>\<open>str.capitalize()\<close>: the first character upper-cased, the rest lower-cased.\<close>

fun capitalize :: "string \<Rightarrow> string" where
  "capitalize [] = []"
| "capitalize (c # cs) = to_upper c # map to_lower cs"

text \<open>
  \<open>str.strip()\<close> removes leading and trailing whitespace: the characters for which
  \<open>str.isspace()\<close> holds, here those below code point 256.
\<close>

definition whitespace :: string where
  "whitespace = [CHR 0x09, CHR 0x0A, CHR 0x0B, CHR 0x0C, CHR 0x0D, CHR 0x1C, CHR 0x1D,
     CHR 0x1E, CHR 0x1F, CHR 0x20, CHR 0x85, CHR 0xA0]"

text \<open>\<open>s.strip(chars)\<close>: drop the characters of \<open>chars\<close> from both ends.\<close>

definition strip_chars :: "string \<Rightarrow> string \<Rightarrow> string" where
  "strip_chars chars s =
     rev (dropWhile (\<lambda>c. c \<in> set chars) (rev (dropWhile (\<lambda>c. c \<in> set chars) s)))"

definition strip :: "string \<Rightarrow> string" where
  "strip s = strip_chars whitespace s"

text \<open>\<open>s.split(sep)\<close> for a one-character separator: \<open>''''.split('_')\<close> is \<open>['''']\<close>.\<close>

fun split_on :: "char \<Rightarrow> string \<Rightarrow> string list" where
  "split_on sep [] = [[]]"
| "split_on sep (c # cs) =
     (if c = sep then [] # split_on sep cs
      else (case split_on sep cs of
              [] \<Rightarrow> [[c]]
            | w # ws \<Rightarrow> (c # w) # ws))"

subsection \<open>Regular expressions\<close>

text \<open>
  The two patterns the script matches are anchored at both ends, so \<open>re.match\<close> succeeds
  exactly when the whole string is in the language of the pattern, or when the string
  ends with a newline and the part before it is (Python's \<open>$\<close> also matches just before
  a final newline). Membership is decided by derivatives.
\<close>

datatype rx =
    Zero
  | One
  | Cls string
  | Seq rx rx
  | Alt rx rx
  | Star rx

fun nullable :: "rx \<Rightarrow> bool" where
  "nullable Zero = False"
| "nullable One = True"
| "nullable (Cls cs) = False"
| "nullable (Seq r s) = (nullable r \<and> nullable s)"
| "nullable (Alt r s) = (nullable r \<or> nullable s)"
| "nullable (Star r) = True"

fun deriv :: "char \<Rightarrow> rx \<Rightarrow> rx" where
  "deriv c Zero = Zero"
| "deriv c One = Zero"
| "deriv c (Cls cs) = (if c \<in> set cs then One else Zero)"
| "deriv c (Seq r s) =
     (if nullable r then Alt (Seq (deriv c r) s) (deriv c s) else Seq (deriv c r) s)"
| "deriv c (Alt r s) = Alt (deriv c r) (deriv c s)"
| "deriv c (Star r) = Seq (deriv c r) (Star r)"

fun matches :: "rx \<Rightarrow> string \<Rightarrow> bool" where
  "matches r [] = nullable r"
| "matches r (c # cs) = matches (deriv c r) cs"

text \<open>\<open>r+\<close> is \<open>rr*\<close>.\<close>

definition Plus :: "rx \<Rightarrow> rx" where
  "Plus r = Seq r (Star r)"

text \<open>\<open>bool(re.match('^r$', s))\<close>.\<close>

definition re_match :: "rx \<Rightarrow> string \<Rightarrow> bool" where
  "re_match r s = (matches r s \<or> (s \<noteq> [] \<and> last s = CHR 0x0A \<and> matches r (butlast s)))"

section \<open>Project name and derived identifiers\<close>

text \<open>
  The pattern of the project name,
  \<^verbatim>\<open>^[a-zA-Z0-9][a-zA-Z0-9._-]*[a-zA-Z0-9]$|^[a-zA-Z0-9]$\<close>.
\<close>

definition project_name_pattern :: rx where
  "project_name_pattern =
     Alt (Seq (Cls alnum) (Seq (Star (Cls (alnum @ ''._-''))) (Cls alnum))) (Cls alnum)"

definition valid_project_name :: "string \<Rightarrow> bool" where
  "valid_project_name project_name = re_match project_name_pattern project_name"

text \<open>
  \<^verbatim>\<open>re.sub(r"[^a-zA-Z0-9]", "_", project_name)\<close>: every character outside the class
  becomes an underscore.
\<close>

definition sub_non_alnum :: "string \<Rightarrow> string" where
  "sub_non_alnum s = map (\<lambda>c. if c \<in> set alnum then c else CHR ''_'') s"

text \<open>
  \<^verbatim>\<open>re.sub(r"_+", "_", s)\<close>: every maximal run of underscores becomes one underscore.
\<close>

fun sub_underscores :: "string \<Rightarrow> string" where
  "sub_underscores (c # d # cs) =
     (if c = CHR ''_'' \<and> d = CHR ''_'' then sub_underscores (d # cs)
      else c # sub_underscores (d # cs))"
| "sub_underscores cs = cs"

definition derive_module_name :: "string \<Rightarrow> string" where
  "derive_module_name project_name =
     strip_chars ''_'' (sub_underscores (lower (sub_non_alnum project_name)))"

definition derive_main_class :: "string \<Rightarrow> string" where
  "derive_main_class module_name =
     (let main_class = concat (map capitalize (split_on CHR ''_'' module_name))
      in if main_class = [] then ''MainClass'' else main_class)"

text \<open>
  The shape of a module identifier: lowercase letters, digits and underscores only, no
  two underscores in a row, no underscore at either end.
\<close>

definition module_identifier_shape :: "string \<Rightarrow> bool" where
  "module_identifier_shape m =
     (list_all (\<lambda>c. c \<in> set (lower_letters @ digits @ ''_'')) m
      \<and> \<not> sublist ''__'' m \<and> \<not> prefix ''_'' m \<and> \<not> suffix ''_'' m)"

section \<open>Email validation\<close>

text \<open>
  The pattern of \<open>is_valid_email\<close>,
  \<^verbatim>\<open>^[a-zA-Z0-9._%+-]+@[a-zA-Z0-9.-]+\.[a-zA-Z]{2,}$\<close>.
\<close>

definition email_pattern :: rx where
  "email_pattern =
     Seq (Plus (Cls (alnum @ ''._%+-'')))
       (Seq (Cls ''@'')
         (Seq (Plus (Cls (alnum @ ''.-'')))
           (Seq (Cls ''.'')
             (Seq (Cls letters) (Seq (Cls letters) (Star (Cls letters)))))))"

text \<open>
  \<open>is_valid_email\<close>. The address parser \<open>email.utils.parseaddr\<close> belongs to the standard
  library, not to the script: it is a parameter, a function from the input to the pair
  of the parsed display name and the parsed address.
\<close>

definition is_valid_email :: "(string \<Rightarrow> string \<times> string) \<Rightarrow> string \<Rightarrow> bool" where
  "is_valid_email parseaddr email =
     (if email = [] \<or> CHR ''@'' \<notin> set email then False
      else (case parseaddr email of
              (parsed_name, parsed_email) \<Rightarrow>
                if parsed_email = [] \<or> CHR ''@'' \<notin> set parsed_email then False
                else re_match email_pattern parsed_email))"

section \<open>Collecting the project metadata\<close>

text \<open>
  What the run can raise. Standard input is a list of lines; \<open>input()\<close> on an exhausted
  input raises \<open>EOFError\<close>. The other errors are those of the file operations below.
\<close>

datatype error =
    EOFError
  | FileNotFoundError
  | FileExistsError
  | NotADirectoryError
  | IsADirectoryError
  | DirectoryNotEmptyError
  | PermissionError
  | UnicodeDecodeError
  | OSError

text \<open>\<open>input(prompt).strip()\<close>: the next line, stripped, and the lines that remain.\<close>

fun input_stripped :: "string list \<Rightarrow> error + (string \<times> string list)" where
  "input_stripped [] = Inl EOFError"
| "input_stripped (line # rest) = Inr (strip line, rest)"

text \<open>The loop that asks for the project name until one is accepted.\<close>

fun read_project_name :: "string list \<Rightarrow> error + (string \<times> string list)" where
  "read_project_name [] = Inl EOFError"
| "read_project_name (line # rest) =
     (let project_name = strip line in
      if project_name = [] then read_project_name rest
      else if \<not> valid_project_name project_name then read_project_name rest
      else Inr (project_name, rest))"

text \<open>The loop that asks for the author's email address.\<close>

fun read_author_email ::
  "(string \<Rightarrow> string \<times> string) \<Rightarrow> string list \<Rightarrow> error + (string \<times> string list)" where
  "read_author_email parseaddr [] = Inl EOFError"
| "read_author_email parseaddr (line # rest) =
     (let author_email = strip line in
      if author_email = [] then Inr (''your.email@example.com'', rest)
      else if is_valid_email parseaddr author_email then Inr (author_email, rest)
      else read_author_email parseaddr rest)"

record metadata =
  project_name :: string
  "module_name" :: string
  project_description :: string
  author_name :: string
  author_email :: string
  github_username :: string
  main_class :: string

text \<open>
  The first part of \<open>setup_project\<close>: the answers, their defaults and the two derived
  identifiers. The result is the metadata and the input lines not yet read.
\<close>

definition collect_metadata ::
  "(string \<Rightarrow> string \<times> string) \<Rightarrow> string list \<Rightarrow> error + (metadata \<times> string list)" where
  "collect_metadata parseaddr ins =
     (case read_project_name ins of
        Inl e \<Rightarrow> Inl e
      | Inr (pn, ins1) \<Rightarrow>
     (let mn = derive_module_name pn in
      case input_stripped ins1 of
        Inl e \<Rightarrow> Inl e
      | Inr (d, ins2) \<Rightarrow>
     (let pd = (if d = [] then ''A Python project: '' @ pn else d) in
      case input_stripped ins2 of
        Inl e \<Rightarrow> Inl e
      | Inr (a, ins3) \<Rightarrow>
     (let an = (if a = [] then ''Your Name'' else a) in
      case read_author_email parseaddr ins3 of
        Inl e \<Rightarrow> Inl e
      | Inr (ae, ins4) \<Rightarrow>
     (case input_stripped ins4 of
        Inl e \<Rightarrow> Inl e
      | Inr (g, ins5) \<Rightarrow>
     (let gu = (if g = [] then ''yourusername'' else g) in
      Inr (\<lparr>project_name = pn, module_name = mn, project_description = pd,
             author_name = an, author_email = ae, github_username = gu,
             main_class = derive_main_class mn\<rparr>, ins5)))))))"

section \<open>The Replacement Table\<close>

text \<open>The dictionary \<open>replacements\<close>, in its insertion order, which is its iteration order.\<close>

definition replacements :: "metadata \<Rightarrow> (string \<times> string) list" where
  "replacements m =
     [(''{{PROJECT_NAME}}'', project_name m),
      (''{{MODULE_NAME}}'', module_name m),
      (''{{PROJECT_DESCRIPTION}}'', project_description m),
      (''{{AUTHOR_NAME}}'', author_name m),
      (''{{AUTHOR_EMAIL}}'', author_email m),
      (''{{GITHUB_USERNAME}}'', github_username m),
      (''{{MAIN_CLASS}}'', main_class m)]"

text \<open>The seven placeholder tokens: the keys of the table.\<close>

definition placeholder_tokens :: "string list" where
  "placeholder_tokens =
     [''{{PROJECT_NAME}}'', ''{{MODULE_NAME}}'', ''{{PROJECT_DESCRIPTION}}'',
      ''{{AUTHOR_NAME}}'', ''{{AUTHOR_EMAIL}}'', ''{{GITHUB_USERNAME}}'', ''{{MAIN_CLASS}}'']"

text \<open>
  \<open>s.replace(old, new)\<close>: the occurrences of \<open>old\<close> are found from the left and do not
  overlap; the text that replaces one is not searched again. (For an empty \<open>old\<close>, Python
  puts \<open>new\<close> before every character and at the end.)
\<close>

function str_replace :: "string \<Rightarrow> string \<Rightarrow> string \<Rightarrow> string" where
  "str_replace old new [] = (if old = [] then new else [])"
| "str_replace old new (c # cs) =
     (if old = [] then new @ c # str_replace old new cs
      else if prefix old (c # cs) then new @ str_replace old new (drop (length old) (c # cs))
      else c # str_replace old new cs)"
  by pat_completeness auto
termination
  by (relation "measure (\<lambda>(old, new, s). length s)") auto

text \<open>
  The loop \<^verbatim>\<open>for template_var, replacement in replacements.items()\<close> of \<open>rename_paths\<close>
  and \<open>replace_in_file\<close>: every entry is applied, in the order of the table, to the
  result of the entries before it.
\<close>

definition apply_replacements :: "(string \<times> string) list \<Rightarrow> string \<Rightarrow> string" where
  "apply_replacements table s =
     fold (\<lambda>(template_var, replacement) acc. str_replace template_var replacement acc) table s"

text \<open>A string holds a placeholder token when one of the seven occurs in it.\<close>

definition has_placeholder :: "string \<Rightarrow> bool" where
  "has_placeholder s = list_ex (\<lambda>k. sublist k s) placeholder_tokens"

section \<open>Template text\<close>

text \<open>
  The vocabulary of the statements about substitution. A template text in the plain
  sense is a sequence of segments: literal text with no opening brace in it, and whole
  placeholder tokens. The table's values are brace-free when none contains an opening
  brace.
\<close>

datatype segment = Lit string | Tok string

fun segment_text :: "segment \<Rightarrow> string" where
  "segment_text (Lit s) = s"
| "segment_text (Tok k) = k"

definition template_text :: "segment list \<Rightarrow> string" where
  "template_text segs = concat (map segment_text segs)"

fun plain_segment :: "segment \<Rightarrow> bool" where
  "plain_segment (Lit s) = (CHR ''{'' \<notin> set s)"
| "plain_segment (Tok k) = (k \<in> set placeholder_tokens)"

definition plain_template :: "segment list \<Rightarrow> bool" where
  "plain_template segs = list_all plain_segment segs"

definition brace_free_values :: "(string \<times> string) list \<Rightarrow> bool" where
  "brace_free_values table = list_all (\<lambda>(k, v). CHR ''{'' \<notin> set v) table"

text \<open>
  What a table does to one segment: a token that is a key becomes the literal text of
  its value, everything else stays.
\<close>

fun fill :: "(string \<times> string) list \<Rightarrow> segment \<Rightarrow> segment" where
  "fill table (Lit s) = Lit s"
| "fill table (Tok k) = (case map_of table k of Some v \<Rightarrow> Lit v | None \<Rightarrow> Tok k)"

text \<open>
  \<open>old\<close> overlaps \<open>a\<close> when, at some position of \<open>a\<close>, the rest of \<open>a\<close> and \<open>old\<close> agree
  as far as both go: an occurrence of \<open>old\<close> could start there in a longer text.
\<close>

definition overlaps :: "string \<Rightarrow> string \<Rightarrow> bool" where
  "overlaps old a = list_ex (\<lambda>j. prefix old (drop j a) \<or> prefix (drop j a) old) [0..<length a]"

text \<open>
  Two runs for the statements below: one whose description mentions a token, and one
  whose project is called \<open>NAME\<close>, with the tables they build.
\<close>

definition description_with_token :: metadata where
  "description_with_token =
     \<lparr>project_name = ''demo-app'', module_name = ''demo_app'',
      project_description = ''About {{PROJECT_NAME}}'', author_name = ''Your Name'',
      author_email = ''your.email@example.com'', github_username = ''yourusername'',
      main_class = ''DemoApp''\<rparr>"

definition project_called_name :: metadata where
  "project_called_name =
     \<lparr>project_name = ''NAME'', module_name = ''name'',
      project_description = ''A Python project: NAME'', author_name = ''Ada'',
      author_email = ''your.email@example.com'', github_username = ''yourusername'',
      main_class = ''Name''\<rparr>"

section \<open>Nested tokens\<close>

text \<open>
  A token is nested at the start of a text when the text opens with two braces, goes on
  with letters of token names (capitals and underscores), and then a whole placeholder
  token follows, as in \<open>{{PROJECT_{{AUTHOR_NAME}}}}\<close>. A text has no nested token when
  none of its suffixes starts so. Braces that open no token are harmless otherwise.
\<close>

definition name_char :: "char \<Rightarrow> bool" where
  "name_char c = (c \<in> set (upper_letters @ ''_''))"

definition nested_at :: "string \<Rightarrow> bool" where
  "nested_at s =
     (prefix ''{{'' s
      \<and> list_ex (\<lambda>k. prefix k (dropWhile name_char (drop 2 s))) placeholder_tokens)"

fun no_nested_token :: "string \<Rightarrow> bool" where
  "no_nested_token [] = True"
| "no_nested_token (c # cs) = (\<not> nested_at (c # cs) \<and> no_nested_token cs)"

text \<open>The values of a table are usable when none is empty and none has a brace in it.\<close>

definition usable_values :: "(string \<times> string) list \<Rightarrow> bool" where
  "usable_values table = list_all (\<lambda>(k, v). v \<noteq> [] \<and> CHR ''{'' \<notin> set v \<and> CHR ''}'' \<notin> set v) table"

section \<open>The file tree\<close>

text \<open>
  A file is what \<open>read_text\<close> and \<open>write_text\<close> can observe of it: its content as
  text (\<open>None\<close> when its bytes are not valid UTF-8) and whether it may be read and
  written. A directory is the list of its entries, in the order in which the operating
  system lists them. There are no symbolic links, and a path is the list of its
  components from the root.
\<close>

record regular_file =
  decoded :: "string option"
  readable :: bool
  writable :: bool

datatype node = File regular_file | Dir "(string \<times> node) list"

type_synonym path = "string list"

fun lookup :: "node \<Rightarrow> path \<Rightarrow> node option" where
  "lookup n [] = Some n"
| "lookup (File f) (x # p) = None"
| "lookup (Dir es) (x # p) = (case map_of es x of None \<Rightarrow> None | Some c \<Rightarrow> lookup c p)"

text \<open>\<open>Path.exists()\<close>.\<close>

definition path_exists :: "node \<Rightarrow> path \<Rightarrow> bool" where
  "path_exists fs p = (lookup fs p \<noteq> None)"

text \<open>
  Storing a node at a path, with the directories above it made when they are missing
  (as \<open>os.makedirs\<close> does); a file in the way is an error.
\<close>

fun put :: "node \<Rightarrow> path \<Rightarrow> node \<Rightarrow> error + node" where
  "put fs [] n = Inr n"
| "put (File f) (x # p) n = Inl NotADirectoryError"
| "put (Dir es) (x # p) n =
     (case put (case map_of es x of None \<Rightarrow> Dir [] | Some c \<Rightarrow> c) p n of
        Inl e \<Rightarrow> Inl e
      | Inr c' \<Rightarrow> Inr (Dir (AList.update x c' es)))"

text \<open>\<open>Path.mkdir(parents=True, exist_ok=exist_ok)\<close>.\<close>

definition mkdir_parents :: "bool \<Rightarrow> node \<Rightarrow> path \<Rightarrow> error + node" where
  "mkdir_parents exist_ok fs p =
     (case lookup fs p of
        Some (Dir es) \<Rightarrow> if exist_ok then Inr fs else Inl FileExistsError
      | Some (File f) \<Rightarrow> Inl FileExistsError
      | None \<Rightarrow> put fs p (Dir []))"

text \<open>Taking the subtree at a path out of the tree.\<close>

fun remove :: "node \<Rightarrow> path \<Rightarrow> node" where
  "remove n [] = n"
| "remove (File f) (x # p) = File f"
| "remove (Dir es) [x] = Dir (AList.delete x es)"
| "remove (Dir es) (x # y # p) =
     (case map_of es x of
        None \<Rightarrow> Dir es
      | Some c \<Rightarrow> Dir (AList.update x (remove c (y # p)) es))"

text \<open>\<open>shutil.rmtree(p)\<close>.\<close>

definition rmtree :: "node \<Rightarrow> path \<Rightarrow> error + node" where
  "rmtree fs p =
     (case lookup fs p of
        None \<Rightarrow> Inl FileNotFoundError
      | Some (File f) \<Rightarrow> Inl NotADirectoryError
      | Some (Dir es) \<Rightarrow> Inr (remove fs p))"

text \<open>
  \<open>shutil.copytree\<close> belongs to the standard library. It is modelled as the copy of the
  source tree as it is when the call starts: the entries whose names are ignored are
  left out at every level, a directory that exists at the destination is merged into
  when \<open>dirs_exist_ok\<close> holds and is an error otherwise, and a file at the destination
  is overwritten. The first error ends the copy.
\<close>

fun prune :: "string list \<Rightarrow> node \<Rightarrow> node"
  and prune_entries :: "string list \<Rightarrow> (string \<times> node) list \<Rightarrow> (string \<times> node) list" where
  "prune ignored (File f) = File f"
| "prune ignored (Dir es) = Dir (prune_entries ignored es)"
| "prune_entries ignored [] = []"
| "prune_entries ignored ((n, c) # es) =
     (if n \<in> set ignored then prune_entries ignored es
      else (n, prune ignored c) # prune_entries ignored es)"

fun copy_into :: "bool \<Rightarrow> node \<Rightarrow> node option \<Rightarrow> error + node"
  and copy_entries ::
    "bool \<Rightarrow> (string \<times> node) list \<Rightarrow> (string \<times> node) list \<Rightarrow> error + (string \<times> node) list" where
  "copy_into dirs_exist_ok (File f) dst =
     (if \<not> readable f then Inl PermissionError
      else (case dst of
              None \<Rightarrow> Inr (File f)
            | Some (File g) \<Rightarrow> if writable g then Inr (File f) else Inl PermissionError
            | Some (Dir ds) \<Rightarrow> Inl IsADirectoryError))"
| "copy_into dirs_exist_ok (Dir es) dst =
     (case dst of
        None \<Rightarrow>
          (case copy_entries dirs_exist_ok es [] of Inl e \<Rightarrow> Inl e | Inr ds' \<Rightarrow> Inr (Dir ds'))
      | Some (File g) \<Rightarrow> Inl FileExistsError
      | Some (Dir ds) \<Rightarrow>
          if dirs_exist_ok
          then (case copy_entries dirs_exist_ok es ds of
                  Inl e \<Rightarrow> Inl e
                | Inr ds' \<Rightarrow> Inr (Dir ds'))
          else Inl FileExistsError)"
| "copy_entries dirs_exist_ok [] ds = Inr ds"
| "copy_entries dirs_exist_ok ((n, c) # es) ds =
     (case copy_into dirs_exist_ok c (map_of ds n) of
        Inl e \<Rightarrow> Inl e
      | Inr c' \<Rightarrow> copy_entries dirs_exist_ok es (AList.update n c' ds))"

definition copytree :: "node \<Rightarrow> path \<Rightarrow> path \<Rightarrow> bool \<Rightarrow> string list \<Rightarrow> error + node" where
  "copytree fs src dst dirs_exist_ok ignored =
     (case lookup fs src of
        None \<Rightarrow> Inl FileNotFoundError
      | Some (File f) \<Rightarrow> Inl NotADirectoryError
      | Some (Dir es) \<Rightarrow>
          (case copy_into dirs_exist_ok (prune ignored (Dir es)) (lookup fs dst) of
             Inl e \<Rightarrow> Inl e
           | Inr n \<Rightarrow> put fs dst n))"

section \<open>The module directory\<close>

text \<open>
  \<open>fix_src_layout\<close>. \<open>template_dir\<close> is the directory of the script,
  \<open>Path(__file__).parent\<close>. The module name is one path component: a derived module
  identifier has no path separator in it.
\<close>

definition fix_src_layout :: "path \<Rightarrow> node \<Rightarrow> path \<Rightarrow> string \<Rightarrow> error + node" where
  "fix_src_layout template_dir fs target_dir mn =
     (let src_dir = target_dir @ [''src''];
          template_src = template_dir @ [''src'', ''{{MODULE_NAME}}''];
          new_module_dir = src_dir @ [mn]
      in if path_exists fs new_module_dir then Inr fs
         else (case mkdir_parents True fs src_dir of
                 Inl e \<Rightarrow> Inl e
               | Inr fs1 \<Rightarrow>
           (case copytree fs1 template_src new_module_dir False [] of
                 Inl e \<Rightarrow> Inl e
               | Inr fs2 \<Rightarrow>
            (let old_template_dir = src_dir @ [''{{MODULE_NAME}}'']
             in if path_exists fs2 old_template_dir then rmtree fs2 old_template_dir
                else Inr fs2))))"

section \<open>Paths as typed\<close>

text \<open>
  A \<open>Path\<close> keeps the components of the string it was made from, without the empty
  ones and without \<open>.\<close>; a \<open>..\<close> stays. The operating system follows these components
  when a file operation is given the path: \<open>..\<close> goes one directory up from a place
  that must exist and be a directory. \<open>stat_path\<close> is what \<open>os.stat\<close> finds at the path
  as typed; \<open>Path.exists()\<close> holds when it finds something.
\<close>

definition path_parts :: "string \<Rightarrow> string list" where
  "path_parts s = filter (\<lambda>c. c \<noteq> [] \<and> c \<noteq> ''.'') (split_on CHR ''/'' s)"

definition start_of :: "path \<Rightarrow> string \<Rightarrow> path" where
  "start_of cwd s = (if prefix ''/'' s then [] else cwd)"

fun stat :: "node \<Rightarrow> path \<Rightarrow> error + node" where
  "stat n [] = Inr n"
| "stat (File f) (x # p) = Inl NotADirectoryError"
| "stat (Dir es) (x # p) =
     (case map_of es x of None \<Rightarrow> Inl FileNotFoundError | Some c \<Rightarrow> stat c p)"

fun locate :: "node \<Rightarrow> path \<Rightarrow> string list \<Rightarrow> error + path" where
  "locate fs here [] = Inr here"
| "locate fs here (c # cs) =
     (if c = ''..''
      then (case stat fs here of
              Inl e \<Rightarrow> Inl e
            | Inr (File f) \<Rightarrow> Inl NotADirectoryError
            | Inr (Dir es) \<Rightarrow> locate fs (butlast here) cs)
      else locate fs (here @ [c]) cs)"

definition stat_path :: "node \<Rightarrow> path \<Rightarrow> string \<Rightarrow> error + node" where
  "stat_path fs cwd s =
     (case locate fs (start_of cwd s) (path_parts s) of
        Inl e \<Rightarrow> Inl e
      | Inr p \<Rightarrow> stat fs p)"

section \<open>Renaming paths\<close>

text \<open>
  \<open>os.rename(src, dst)\<close> on two places of the tree, as POSIX has it. The source must
  exist, and the place above the destination must be a directory. Renaming a place to
  itself does nothing, and a place cannot be moved below itself. A file replaces a file
  at the destination, a directory replaces an empty directory there, and every other
  clash is an error; a destination that is a directory above the source is such a
  clash. The entry is taken out of its directory and stored at the destination.
\<close>

definition os_rename :: "node \<Rightarrow> path \<Rightarrow> path \<Rightarrow> error + node" where
  "os_rename fs src dst =
     (case stat fs src of
        Inl e \<Rightarrow> Inl e
      | Inr n \<Rightarrow>
          if dst = [] then Inl OSError
          else (case stat fs (butlast dst) of
                  Inl e \<Rightarrow> Inl e
                | Inr (File f) \<Rightarrow> Inl NotADirectoryError
                | Inr (Dir ps) \<Rightarrow>
                    if src = dst then Inr fs
                    else if prefix src dst then Inl OSError
                    else (case stat fs dst of
                            Inl e \<Rightarrow> put (remove fs src) dst n
                          | Inr (File g) \<Rightarrow>
                              (case n of
                                 File f \<Rightarrow> put (remove fs src) dst n
                               | Dir es \<Rightarrow> Inl NotADirectoryError)
                          | Inr (Dir ds) \<Rightarrow>
                              (case n of
                                 File f \<Rightarrow> Inl IsADirectoryError
                               | Dir es \<Rightarrow>
                                   if ds = [] then put (remove fs src) dst n
                                   else Inl DirectoryNotEmptyError))))"

text \<open>
  \<open>root_path / new_name\<close> as the destination of a rename. A new name that starts with a
  separator is an absolute path, any other is read from \<open>root_path\<close>. The operating
  system follows the components of the joined path up to the last one, which names the
  entry to make and need not exist; a last component \<open>..\<close> is an error. A new name with
  no component at all is \<open>root_path\<close> itself (or the root).
\<close>

definition rename_destination :: "node \<Rightarrow> path \<Rightarrow> string \<Rightarrow> error + path" where
  "rename_destination fs root_path new_name =
     (case rev (path_parts new_name) of
        [] \<Rightarrow> Inr (start_of root_path new_name)
      | c # rparent \<Rightarrow>
          if c = ''..'' then Inl OSError
          else (case locate fs (start_of root_path new_name) (rev rparent) of
                  Inl e \<Rightarrow> Inl e
                | Inr q \<Rightarrow> Inr (q @ [c])))"

text \<open>\<open>(root_path / name).rename(root_path / new_name)\<close>.\<close>

definition rename_entry :: "node \<Rightarrow> path \<Rightarrow> string \<Rightarrow> string \<Rightarrow> error + node" where
  "rename_entry fs root_path name new_name =
     (case rename_destination fs root_path new_name of
        Inl e \<Rightarrow> Inl e
      | Inr dst \<Rightarrow> os_rename fs (root_path @ [name]) dst)"

text \<open>
  One of the two inner loops of \<open>rename_paths\<close>: for each name of the listing, the new
  name is the result of all the replacements, and the entry is renamed when the new
  name differs. An error is not caught.
\<close>

fun rename_names ::
  "(string \<times> string) list \<Rightarrow> path \<Rightarrow> string list \<Rightarrow> node \<Rightarrow> error + node" where
  "rename_names table root_path [] fs = Inr fs"
| "rename_names table root_path (name # names) fs =
     (let new_name = apply_replacements table name in
      if new_name \<noteq> name
      then (case rename_entry fs root_path name new_name of
              Inl e \<Rightarrow> Inl e
            | Inr fs' \<Rightarrow> rename_names table root_path names fs')
      else rename_names table root_path names fs)"

text \<open>The \<open>files\<close> and the \<open>dirs\<close> of a directory listing.\<close>

fun file_names :: "(string \<times> node) list \<Rightarrow> string list" where
  "file_names [] = []"
| "file_names ((n, File f) # es) = n # file_names es"
| "file_names ((n, Dir ds) # es) = file_names es"

fun dir_names :: "(string \<times> node) list \<Rightarrow> string list" where
  "dir_names [] = []"
| "dir_names ((n, File f) # es) = dir_names es"
| "dir_names ((n, Dir ds) # es) = n # dir_names es"

text \<open>
  \<open>os.walk(base_path, topdown=False)\<close> lists a directory, walks the subdirectories of
  the listing one after the other, each as the tree is when its turn comes, and only
  then yields the directory with the listing it took: the body of the loop of
  \<open>rename_paths\<close> renames the files and then the directories of that listing. A place
  that cannot be listed yields nothing. The walk is given the number of directories it
  may go down through; \<open>None\<close> says that this number was too small.
\<close>

fun rename_walk :: "nat \<Rightarrow> (string \<times> string) list \<Rightarrow> path \<Rightarrow> node \<Rightarrow> (error + node) option"
  and rename_dirs ::
    "nat \<Rightarrow> (string \<times> string) list \<Rightarrow> path \<Rightarrow> string list \<Rightarrow> node \<Rightarrow> (error + node) option" where
  "rename_walk 0 table here fs =
     (case stat fs here of
        Inr (Dir es) \<Rightarrow> None
      | _ \<Rightarrow> Some (Inr fs))"
| "rename_walk (Suc k) table here fs =
     (case stat fs here of
        Inr (Dir es) \<Rightarrow>
          (case rename_dirs k table here (dir_names es) fs of
             None \<Rightarrow> None
           | Some (Inl e) \<Rightarrow> Some (Inl e)
           | Some (Inr fs1) \<Rightarrow>
               (case rename_names table here (file_names es) fs1 of
                  Inl e \<Rightarrow> Some (Inl e)
                | Inr fs2 \<Rightarrow> Some (rename_names table here (dir_names es) fs2)))
      | _ \<Rightarrow> Some (Inr fs))"
| "rename_dirs k table here [] fs = Some (Inr fs)"
| "rename_dirs k table here (d # ds) fs =
     (case rename_walk k table (here @ [d]) fs of
        None \<Rightarrow> None
      | Some (Inl e) \<Rightarrow> Some (Inl e)
      | Some (Inr fs1) \<Rightarrow> rename_dirs k table here ds fs1)"

text \<open>
  The number of directories of a tree: no path goes down through more, and a rename
  does not make it greater, so the walk of \<open>rename_paths\<close> never runs short with it.
\<close>

fun dir_count :: "node \<Rightarrow> nat"
  and dir_count_entries :: "(string \<times> node) list \<Rightarrow> nat" where
  "dir_count (File f) = 0"
| "dir_count (Dir es) = Suc (dir_count_entries es)"
| "dir_count_entries [] = 0"
| "dir_count_entries ((n, c) # es) = dir_count c + dir_count_entries es"

text \<open>\<open>rename_paths\<close>.\<close>

definition rename_paths :: "node \<Rightarrow> path \<Rightarrow> (string \<times> string) list \<Rightarrow> error + node" where
  "rename_paths fs base_path table =
     (case rename_walk (dir_count fs) table base_path fs of
        None \<Rightarrow> Inl OSError
      | Some r \<Rightarrow> r)"

text \<open>
  What the statements about names speak of: the entries below a directory, that is the
  paths that exist and go through it, and those among them whose name holds a
  placeholder token.
\<close>

definition entry_below :: "node \<Rightarrow> path \<Rightarrow> path \<Rightarrow> bool" where
  "entry_below fs base p = (strict_prefix base p \<and> path_exists fs p)"

definition unrenamed_below :: "node \<Rightarrow> path \<Rightarrow> path \<Rightarrow> bool" where
  "unrenamed_below fs base p = (entry_below fs base p \<and> has_placeholder (last p))"

text \<open>Putting a node in the place of the one at an existing path.\<close>

fun replace_at :: "node \<Rightarrow> path \<Rightarrow> node \<Rightarrow> node" where
  "replace_at fs [] n = n"
| "replace_at (File f) (x # p) n = File f"
| "replace_at (Dir es) (x # p) n =
     (case map_of es x of
        None \<Rightarrow> Dir es
      | Some c \<Rightarrow> Dir (AList.update x (replace_at c p n) es))"

section \<open>Substituting file contents\<close>

datatype message = Warning path error

text \<open>\<open>Path.read_text(encoding="utf-8")\<close> and \<open>Path.write_text(s, encoding="utf-8")\<close>.\<close>

definition read_text :: "regular_file \<Rightarrow> error + string" where
  "read_text f =
     (if \<not> readable f then Inl PermissionError
      else (case decoded f of None \<Rightarrow> Inl UnicodeDecodeError | Some s \<Rightarrow> Inr s))"

definition write_text :: "regular_file \<Rightarrow> string \<Rightarrow> error + regular_file" where
  "write_text f s = (if \<not> writable f then Inl PermissionError else Inr (f\<lparr>decoded := Some s\<rparr>))"

text \<open>The body of the \<open>try\<close> of \<open>replace_in_file\<close>.\<close>

definition replace_in_file_try :: "(string \<times> string) list \<Rightarrow> regular_file \<Rightarrow> error + regular_file" where
  "replace_in_file_try table f =
     (case read_text f of
        Inl e \<Rightarrow> Inl e
      | Inr s \<Rightarrow> write_text f (apply_replacements table s))"

text \<open>
  \<open>replace_in_file\<close>: the handler catches every exception of the body and prints a
  warning with the path of the file.
\<close>

definition replace_in_file ::
  "path \<Rightarrow> regular_file \<Rightarrow> (string \<times> string) list \<Rightarrow> regular_file \<times> message list" where
  "replace_in_file file_path f table =
     (case replace_in_file_try table f of
        Inl e \<Rightarrow> (f, [Warning file_path e])
      | Inr f' \<Rightarrow> (f', []))"

text \<open>
  \<open>PurePath.suffix\<close>: the name from its last dot on, unless that dot is the first or
  the last character of the name or there is none.
\<close>

definition name_suffix :: "string \<Rightarrow> string" where
  "name_suffix name =
     (let ext = rev (takeWhile (\<lambda>c. c \<noteq> CHR ''.'') (rev name)) in
      if CHR ''.'' \<notin> set name \<or> ext = [] \<or> length ext + 1 = length name then []
      else CHR ''.'' # ext)"

definition text_suffixes :: "string list" where
  "text_suffixes = [''.py'', ''.md'', ''.txt'', ''.toml'', ''.yml'', ''.yaml'']"

definition text_file_name :: "string \<Rightarrow> bool" where
  "text_file_name name = (name_suffix name \<in> set text_suffixes)"

text \<open>
  The loop over \<open>os.walk(target_dir)\<close>: the files of a directory are processed when
  the walk yields the directory, before the walk goes into its subdirectories. One pass
  over the entries does both and keeps the warnings of the files apart from those of
  the subdirectories, which are printed after them. The result is the tree and the
  warnings printed, in their order.
\<close>

fun substitute_tree :: "(string \<times> string) list \<Rightarrow> path \<Rightarrow> node \<Rightarrow> node \<times> message list"
  and substitute_entries ::
    "(string \<times> string) list \<Rightarrow> path \<Rightarrow> (string \<times> node) list
       \<Rightarrow> (string \<times> node) list \<times> message list \<times> message list" where
  "substitute_tree table root (File f) = (File f, [])"
| "substitute_tree table root (Dir es) =
     (case substitute_entries table root es of
        (es', w_files, w_dirs) \<Rightarrow> (Dir es', w_files @ w_dirs))"
| "substitute_entries table root [] = ([], [], [])"
| "substitute_entries table root ((n, File f) # es) =
     (case (if text_file_name n then replace_in_file (root @ [n]) f table else (f, [])) of
        (f', w) \<Rightarrow>
          (case substitute_entries table root es of
             (es', w_files, w_dirs) \<Rightarrow> ((n, File f') # es', w @ w_files, w_dirs)))"
| "substitute_entries table root ((n, Dir ds) # es) =
     (case substitute_tree table (root @ [n]) (Dir ds) of
        (c', w) \<Rightarrow>
          (case substitute_entries table root es of
             (es', w_files, w_dirs) \<Rightarrow> ((n, c') # es', w_files, w @ w_dirs)))"

definition substitute_contents ::
  "node \<Rightarrow> path \<Rightarrow> (string \<times> string) list \<Rightarrow> node \<times> message list" where
  "substitute_contents fs target_dir table =
     (case lookup fs target_dir of
        Some (Dir es) \<Rightarrow>
          (case substitute_tree table target_dir (Dir es) of
             (n, w) \<Rightarrow> (replace_at fs target_dir n, w))
      | _ \<Rightarrow> (fs, []))"

text \<open>
  What the statements about a tree speak of: the names of all its entries, and its
  files with their paths, in the order of the walk.
\<close>

fun names_of :: "node \<Rightarrow> string list"
  and names_of_entries :: "(string \<times> node) list \<Rightarrow> string list" where
  "names_of (File f) = []"
| "names_of (Dir es) = names_of_entries es"
| "names_of_entries [] = []"
| "names_of_entries ((n, c) # es) = n # names_of c @ names_of_entries es"

fun files_here :: "path \<Rightarrow> (string \<times> node) list \<Rightarrow> (path \<times> regular_file) list" where
  "files_here root [] = []"
| "files_here root ((n, File f) # es) = (root @ [n], f) # files_here root es"
| "files_here root ((n, Dir ds) # es) = files_here root es"

fun files_of :: "path \<Rightarrow> node \<Rightarrow> (path \<times> regular_file) list"
  and files_below :: "path \<Rightarrow> (string \<times> node) list \<Rightarrow> (path \<times> regular_file) list" where
  "files_of root (File f) = []"
| "files_of root (Dir es) = files_here root es @ files_below root es"
| "files_below root [] = []"
| "files_below root ((n, c) # es) = files_of (root @ [n]) c @ files_below root es"

text \<open>What the walk does to one file, and the warning it prints for it.\<close>

definition substituted :: "(string \<times> string) list \<Rightarrow> path \<times> regular_file \<Rightarrow> path \<times> regular_file" where
  "substituted table pf =
     (case pf of (p, f) \<Rightarrow>
        (p, if text_file_name (last p)
            then (case replace_in_file_try table f of Inl e \<Rightarrow> f | Inr f' \<Rightarrow> f')
            else f))"

definition warning_for :: "(string \<times> string) list \<Rightarrow> path \<times> regular_file \<Rightarrow> message list" where
  "warning_for table pf =
     (case pf of (p, f) \<Rightarrow>
        if text_file_name (last p)
        then (case replace_in_file_try table f of Inl e \<Rightarrow> [Warning p e] | Inr f' \<Rightarrow> [])
        else [])"

section \<open>The run\<close>

text \<open>
  \<open>Path.resolve()\<close>, without symbolic links: a path that starts with a separator is read
  from the root, any other from the current directory; empty components and \<open>.\<close> are
  dropped, and \<open>..\<close> goes one directory up, whether the directory it leaves exists or
  not. The script resolves a path only to compare it with another.
\<close>

fun normalize :: "path \<Rightarrow> string list \<Rightarrow> path" where
  "normalize acc [] = acc"
| "normalize acc (c # cs) =
     (if c = [] \<or> c = ''.'' then normalize acc cs
      else if c = ''..'' then normalize (butlast acc) cs
      else normalize (acc @ [c]) cs)"

definition resolve :: "path \<Rightarrow> string \<Rightarrow> path" where
  "resolve cwd s = normalize (if prefix ''/'' s then [] else cwd) (split_on CHR ''/'' s)"

text \<open>
  \<open>os.mkdir\<close> on the components of a path, from a starting directory: the place above
  the last component must be a directory, and the last component must be new there.
\<close>

definition os_mkdir :: "node \<Rightarrow> path \<Rightarrow> string list \<Rightarrow> error + node" where
  "os_mkdir fs start parts =
     (case rev parts of
        [] \<Rightarrow> Inl FileExistsError
      | c # rparent \<Rightarrow>
          (case locate fs start (rev rparent) of
             Inl e \<Rightarrow> Inl e
           | Inr q \<Rightarrow>
               (case stat fs q of
                  Inl e \<Rightarrow> Inl e
                | Inr (File f) \<Rightarrow> Inl NotADirectoryError
                | Inr (Dir es) \<Rightarrow>
                    if c = ''..'' \<or> map_of es c \<noteq> None then Inl FileExistsError
                    else put fs (q @ [c]) (Dir []))))"

definition is_dir_at :: "node \<Rightarrow> path \<Rightarrow> string list \<Rightarrow> bool" where
  "is_dir_at fs start parts =
     (case locate fs start parts of
        Inl e \<Rightarrow> False
      | Inr p \<Rightarrow> (case stat fs p of Inr (Dir es) \<Rightarrow> True | _ \<Rightarrow> False))"

text \<open>
  \<open>Path.mkdir(parents=True, exist_ok=exist_ok)\<close> on the path as typed, its components
  given last first: when \<open>os.mkdir\<close> finds a component missing, the parent (the path
  without its last component) is made with \<open>exist_ok=True\<close> and \<open>os.mkdir\<close> is tried
  once more; any other error is passed on unless \<open>exist_ok\<close> holds and the path is a
  directory.
\<close>

fun mkdir_path :: "bool \<Rightarrow> node \<Rightarrow> path \<Rightarrow> string list \<Rightarrow> error + node" where
  "mkdir_path exist_ok fs start [] =
     (case os_mkdir fs start [] of
        Inr fs' \<Rightarrow> Inr fs'
      | Inl e \<Rightarrow>
          if e \<noteq> FileNotFoundError \<and> exist_ok \<and> is_dir_at fs start [] then Inr fs else Inl e)"
| "mkdir_path exist_ok fs start (c # rparent) =
     (case os_mkdir fs start (rev (c # rparent)) of
        Inr fs' \<Rightarrow> Inr fs'
      | Inl e \<Rightarrow>
          if e = FileNotFoundError
          then (case mkdir_path True fs start rparent of
                  Inl e' \<Rightarrow> Inl e'
                | Inr fs1 \<Rightarrow>
                    (case os_mkdir fs1 start (rev (c # rparent)) of
                       Inr fs2 \<Rightarrow> Inr fs2
                     | Inl e2 \<Rightarrow>
                         if e2 \<noteq> FileNotFoundError \<and> exist_ok
                            \<and> is_dir_at fs1 start (rev (c # rparent))
                         then Inr fs1 else Inl e2))
          else if exist_ok \<and> is_dir_at fs start (rev (c # rparent)) then Inr fs else Inl e)"

text \<open>
  How a run ends: it reaches the success message with a tree and the warnings printed,
  it calls \<open>sys.exit\<close> with a status, leaving a tree, or an exception that nothing
  catches ends it (what it had written by then is not followed).
\<close>

datatype result =
    Completed node "message list"
  | Exited nat node
  | Raised error

text \<open>
  The guard against the current directory: the second confirmation is asked only when
  the target resolves to the current directory, and any answer but \<open>yes\<close> exits with
  status 1. \<open>Inr\<close> is the input that remains when the run goes on.
\<close>

definition check_current_directory ::
  "node \<Rightarrow> path \<Rightarrow> path \<Rightarrow> string list \<Rightarrow> result + string list" where
  "check_current_directory fs cwd target_dir ins =
     (if target_dir = cwd
      then (case input_stripped ins of
              Inl e \<Rightarrow> Inl (Raised e)
            | Inr (confirm_current, rest) \<Rightarrow>
                if lower confirm_current \<noteq> ''yes'' then Inl (Exited 1 fs) else Inr rest)
      else Inr ins)"

text \<open>
  The target directory, tested and made on the path as typed: a directory with an entry
  ends the run with status 1, a missing one is made with its parents. (\<open>iterdir\<close> on a
  file raises.)
\<close>

definition create_target :: "node \<Rightarrow> path \<Rightarrow> string \<Rightarrow> result + node" where
  "create_target fs cwd target =
     (case stat_path fs cwd target of
        Inr (Dir es) \<Rightarrow> if es \<noteq> [] then Inl (Exited 1 fs) else Inr fs
      | Inr (File f) \<Rightarrow> Inl (Raised NotADirectoryError)
      | Inl e \<Rightarrow>
          (case mkdir_path False fs (start_of cwd target) (rev (path_parts target)) of
             Inl e' \<Rightarrow> Inl (Raised e')
           | Inr fs' \<Rightarrow> Inr fs'))"

text \<open>
  The copy of the template (skipped when the target is the directory of the script),
  the module directory, the renaming of paths and the substitution of contents.
\<close>

definition materialize :: "path \<Rightarrow> node \<Rightarrow> path \<Rightarrow> metadata \<Rightarrow> result" where
  "materialize template_dir fs target_dir m =
     (case (if target_dir \<noteq> template_dir
            then copytree fs template_dir target_dir True
                   [''setup_project.py'', ''.git'', ''__pycache__'']
            else Inr fs) of
        Inl e \<Rightarrow> Raised e
      | Inr fs1 \<Rightarrow>
     (case fix_src_layout template_dir fs1 target_dir (module_name m) of
        Inl e \<Rightarrow> Raised e
      | Inr fs2 \<Rightarrow>
     (case rename_paths fs2 target_dir (replacements m) of
        Inl e \<Rightarrow> Raised e
      | Inr fs3 \<Rightarrow>
     (case substitute_contents fs3 target_dir (replacements m) of
        (fs4, w) \<Rightarrow> Completed fs4 w))))"

text \<open>
  \<open>setup_project\<close>, up to its success message: \<open>cwd\<close> is the current directory,
  \<open>template_dir\<close> the directory of the script, \<open>fs\<close> the file tree and \<open>ins\<close> the lines
  of standard input. The target is compared with the current directory and with the
  directory of the script in its resolved form, and tested and made as typed. Once it is
  there as an empty directory, the places its components pass through lie outside it
  and the rest of the run writes inside it only, so the path as typed keeps leading to
  the resolved path, on which the copy and the two walks are followed. The environment
  set up after the success message is outside the model.
\<close>

definition setup_project ::
  "(string \<Rightarrow> string \<times> string) \<Rightarrow> path \<Rightarrow> path \<Rightarrow> node \<Rightarrow> string list \<Rightarrow> result" where
  "setup_project parseaddr cwd template_dir fs ins =
     (case collect_metadata parseaddr ins of
        Inl e \<Rightarrow> Raised e
      | Inr (m, ins1) \<Rightarrow>
     (case input_stripped ins1 of
        Inl e \<Rightarrow> Raised e
      | Inr (confirm, ins2) \<Rightarrow>
          if lower confirm \<notin> set [''y'', ''yes''] then Exited 0 fs
          else
     (case input_stripped ins2 of
        Inl e \<Rightarrow> Raised e
      | Inr (target_dir_input, ins3) \<Rightarrow>
     (let target = (if target_dir_input = [] then ''./'' @ project_name m
                    else target_dir_input);
          target_dir = resolve cwd target
      in case check_current_directory fs cwd target_dir ins3 of
           Inl r \<Rightarrow> r
         | Inr ins4 \<Rightarrow>
             (case create_target fs cwd target of
                Inl r \<Rightarrow> r
              | Inr fs1 \<Rightarrow> materialize template_dir fs1 target_dir m)))))"

section \<open>An example tree\<close>

text \<open>
  A template root \<open>/tpl\<close> with the script, a readme, a picture that is not text and the
  module directory, beside a directory \<open>/out\<close> that holds one file. The address parser
  of the examples returns its input as the address.
\<close>

definition text_file :: "string \<Rightarrow> node" where
  "text_file s = File \<lparr>decoded = Some s, readable = True, writable = True\<rparr>"

definition binary_file :: node where
  "binary_file = File \<lparr>decoded = None, readable = True, writable = True\<rparr>"

definition example_module :: node where
  "example_module =
     Dir [(''__init__.py'', text_file ''{{PROJECT_NAME}} - {{PROJECT_DESCRIPTION}}''),
          (''{{MODULE_NAME}}_config.py'', text_file ''module = {{MODULE_NAME}}'')]"

definition example_template :: node where
  "example_template =
     Dir [(''setup_project.py'', text_file ''import os''),
          (''README.md'', text_file ''{{PROJECT_NAME}} by {{AUTHOR_NAME}}''),
          (''logo.txt'', binary_file),
          (''src'', Dir [(''{{MODULE_NAME}}'', example_module)])]"

definition example_tree :: node where
  "example_tree =
     Dir [(''tpl'', example_template),
          (''out'', Dir [(''notes.txt'', text_file ''keep me'')])]"

definition bare_address :: "string \<Rightarrow> string \<times> string" where
  "bare_address s = ('''', s)"

text \<open>The metadata of a run that answers every question but the name with its default.\<close>

definition demo_metadata :: metadata where
  "demo_metadata =
     \<lparr>project_name = ''demo-app'', module_name = ''demo_app'',
      project_description = ''A Python project: demo-app'', author_name = ''Your Name'',
      author_email = ''your.email@example.com'', github_username = ''yourusername'',
      main_class = ''DemoApp''\<rparr>"

text \<open>The example tree after \<open>fix_src_layout\<close> has run on \<open>/out\<close> for \<open>demo_app\<close>.\<close>

definition example_fixed :: node where
  "example_fixed =
     Dir [(''tpl'', example_template),
          (''out'', Dir [(''notes.txt'', text_file ''keep me''),
                         (''src'', Dir [(''demo_app'', example_module)])])]"

text \<open>
  The vocabulary of the statements about what remains after the two walks: a file whose
  text, when it can be read, has no nested token; a file whose text holds no placeholder
  token; and a path for which a warning was printed.
\<close>

definition unnested_content :: "regular_file \<Rightarrow> bool" where
  "unnested_content f = (case read_text f of Inl e \<Rightarrow> True | Inr s \<Rightarrow> no_nested_token s)"

definition placeholder_free_content :: "regular_file \<Rightarrow> bool" where
  "placeholder_free_content f = (case decoded f of None \<Rightarrow> False | Some s \<Rightarrow> \<not> has_placeholder s)"

definition warned :: "message list \<Rightarrow> path \<Rightarrow> bool" where
  "warned msgs p = list_ex (\<lambda>w. case w of Warning q e \<Rightarrow> q = p) msgs"

section \<open>Facts about the string functions\<close>

lemma to_lower_class:
  "c \<in> set (alnum @ ''_'') \<Longrightarrow> to_lower c \<in> set (lower_letters @ digits @ ''_'')"
  unfolding alnum_def lower_letters_def upper_letters_def digits_def to_lower_def
  by (elim disjE | simp)+

lemma set_lower_sub_non_alnum:
  "set (lower (sub_non_alnum s)) \<subseteq> set (lower_letters @ digits @ ''_'')"
proof -
  have "to_lower (if c \<in> set alnum then c else CHR ''_'') \<in> set (lower_letters @ digits @ ''_'')"
    for c
    by (rule to_lower_class) simp
  then show ?thesis
    unfolding lower_def sub_non_alnum_def by (auto simp del: set_append)
qed

lemma set_sub_underscores: "set (sub_underscores s) \<subseteq> set s"
  by (induction s rule: sub_underscores.induct) auto

lemma set_strip_chars: "set (strip_chars chars s) \<subseteq> set s"
  unfolding strip_chars_def
  by (metis set_dropWhileD set_rev subsetI)

lemma sub_underscores_hd:
  "sub_underscores (c # cs) \<noteq> [] \<and> hd (sub_underscores (c # cs)) = c"
  by (induction "c # cs" arbitrary: c cs rule: sub_underscores.induct) auto

lemma sub_underscores_single: "\<not> sublist ''__'' (sub_underscores s)"
proof (induction s rule: sub_underscores.induct)
  case (1 c d cs)
  obtain e es where e: "sub_underscores (d # cs) = e # es" "e = d"
    using sub_underscores_hd [of d cs] by (cases "sub_underscores (d # cs)") auto
  show ?case
  proof (cases "c = CHR ''_'' \<and> d = CHR ''_''")
    case True
    with 1 show ?thesis by simp
  next
    case False
    with 1 e show ?thesis by (auto simp: sublist_Cons_right)
  qed
qed (auto simp: sublist_Cons_right)

lemma strip_chars_sublist: "sublist (strip_chars chars s) s"
proof -
  have "prefix (rev (dropWhile P (rev t))) t" for P and t :: string
    by (metis suffix_dropWhile suffix_to_prefix rev_rev_ident)
  then have "sublist (strip_chars chars s) (dropWhile (\<lambda>c. c \<in> set chars) s)"
    unfolding strip_chars_def by (simp add: prefix_imp_sublist)
  moreover have "sublist (dropWhile (\<lambda>c. c \<in> set chars) s) s"
    by (simp add: suffix_dropWhile suffix_imp_sublist)
  ultimately show ?thesis
    by (rule sublist_order.order_trans)
qed

lemma strip_chars_no_prefix: "c \<in> set chars \<Longrightarrow> \<not> prefix [c] (strip_chars chars s)"
proof
  assume c: "c \<in> set chars" and p: "prefix [c] (strip_chars chars s)"
  let ?P = "\<lambda>c. c \<in> set chars"
  let ?d = "dropWhile ?P s"
  have pre: "prefix (strip_chars chars s) ?d"
    unfolding strip_chars_def by (metis suffix_dropWhile suffix_to_prefix rev_rev_ident)
  with p have "prefix [c] ?d"
    by (rule prefix_order.order_trans)
  then obtain zs where eq: "?d = c # zs"
    by (auto simp: prefix_def)
  have "?d \<noteq> []"
    unfolding eq by simp
  then have "\<not> ?P (hd ?d)"
    by (rule hd_dropWhile)
  moreover have "hd ?d = c"
    unfolding eq by simp
  ultimately show False
    using c by simp
qed

lemma strip_chars_no_suffix: "c \<in> set chars \<Longrightarrow> \<not> suffix [c] (strip_chars chars s)"
proof
  assume c: "c \<in> set chars" and p: "suffix [c] (strip_chars chars s)"
  let ?P = "\<lambda>c. c \<in> set chars"
  let ?d = "dropWhile ?P (rev (dropWhile ?P s))"
  from p have "prefix [c] ?d"
    unfolding strip_chars_def by (simp add: suffix_to_prefix)
  then obtain zs where eq: "?d = c # zs"
    by (auto simp: prefix_def)
  have "?d \<noteq> []"
    unfolding eq by simp
  then have "\<not> ?P (hd ?d)"
    by (rule hd_dropWhile)
  moreover have "hd ?d = c"
    unfolding eq by simp
  ultimately show False
    using c by simp
qed

lemma derive_module_name_shape: "module_identifier_shape (derive_module_name s)"
proof -
  let ?t = "sub_underscores (lower (sub_non_alnum s))"
  have "set (derive_module_name s) \<subseteq> set (lower_letters @ digits @ ''_'')"
    unfolding derive_module_name_def
    using set_strip_chars [of "''_''" ?t] set_sub_underscores [of "lower (sub_non_alnum s)"]
      set_lower_sub_non_alnum [of s]
    by blast
  then have chars: "list_all (\<lambda>c. c \<in> set (lower_letters @ digits @ ''_'')) (derive_module_name s)"
    unfolding list_all_iff by blast
  have "\<not> sublist ''__'' (derive_module_name s)"
    unfolding derive_module_name_def
    using sub_underscores_single [of "lower (sub_non_alnum s)"] strip_chars_sublist [of "''_''" ?t]
    by (meson sublist_order.order_trans)
  moreover have "\<not> prefix ''_'' (derive_module_name s)"
    unfolding derive_module_name_def by (rule strip_chars_no_prefix) simp
  moreover have "\<not> suffix ''_'' (derive_module_name s)"
    unfolding derive_module_name_def by (rule strip_chars_no_suffix) simp
  ultimately show ?thesis
    using chars unfolding module_identifier_shape_def by simp
qed

section \<open>Claims about the derived identifiers\<close>

text \<open>
  C2. For every project name that the identifier grammar accepts, the derived module
  identifier consists of lowercase letters, digits and underscores only, has no two
  underscores in a row, and neither starts nor ends with an underscore.
\<close>

theorem module_name_of_valid_project_name:
  assumes "valid_project_name name"
  shows "module_identifier_shape (derive_module_name name)"
  by (rule derive_module_name_shape)

theorem module_name_of_valid_project_name_witness:
  "valid_project_name ''my.module_2''
   \<and> derive_module_name ''my.module_2'' = ''my_module_2''
   \<and> module_identifier_shape (derive_module_name ''my.module_2'')"
proof -
  have v: "valid_project_name ''my.module_2''"
    by code_simp
  have d: "derive_module_name ''my.module_2'' = ''my_module_2''"
    by code_simp
  show ?thesis
    using v d module_name_of_valid_project_name [OF v] by simp
qed

section \<open>Claims about identifiers and email addresses\<close>

text \<open>
  C3. The project name \<open>demo-app\<close> gives the module identifier \<open>demo_app\<close> and the class
  identifier \<open>DemoApp\<close>; and whenever splitting a module identifier on underscores,
  capitalizing the segments and concatenating them gives the empty string, the class
  identifier is \<open>MainClass\<close>.
\<close>

theorem demo_app_identifiers:
  "derive_module_name ''demo-app'' = ''demo_app''
   \<and> derive_main_class (derive_module_name ''demo-app'') = ''DemoApp''
   \<and> (\<forall>m. concat (map capitalize (split_on CHR ''_'' m)) = []
          \<longrightarrow> derive_main_class m = ''MainClass'')"
proof -
  have d: "derive_module_name ''demo-app'' = ''demo_app''"
    by code_simp
  have c: "derive_main_class ''demo_app'' = ''DemoApp''"
    by code_simp
  show ?thesis
    unfolding d using c by (simp add: derive_main_class_def)
qed

theorem demo_app_identifiers_witness:
  "concat (map capitalize (split_on CHR ''_'' ''_'')) = []
   \<and> derive_main_class ''_'' = ''MainClass''"
proof -
  have e: "concat (map capitalize (split_on CHR ''_'' ''_'')) = []"
    by simp
  show ?thesis
    using e demo_app_identifiers by blast
qed

text \<open>
  C4. Provided the address parser returns a bare address unchanged, and returns for
  \<open>user@\<close> either that string or the empty string (as the standard library's does),
  the validity check accepts \<open>user@example.com\<close> and rejects \<open>not-an-email\<close> and
  \<open>user@\<close>. An empty answer ends the prompt loop at once with the default address,
  whatever the address parser is; the check itself would have rejected the empty string.
\<close>

theorem email_validation:
  assumes "snd (parseaddr ''user@example.com'') = ''user@example.com''"
    and "snd (parseaddr ''user@'') = ''user@'' \<or> snd (parseaddr ''user@'') = ''''"
  shows "is_valid_email parseaddr ''user@example.com''
     \<and> \<not> is_valid_email parseaddr ''not-an-email''
     \<and> \<not> is_valid_email parseaddr ''user@''
     \<and> (\<forall>pa rest. read_author_email pa ('''' # rest) = Inr (''your.email@example.com'', rest)
            \<and> \<not> is_valid_email pa '''')"
proof -
  have ok: "re_match email_pattern ''user@example.com''"
    by code_simp
  have bad: "\<not> re_match email_pattern ''user@''"
    by code_simp
  obtain n where p: "parseaddr ''user@example.com'' = (n, ''user@example.com'')"
    using assms(1) by (cases "parseaddr ''user@example.com''") auto
  have a: "is_valid_email parseaddr ''user@example.com''"
    using ok by (simp add: is_valid_email_def p)
  have b: "\<not> is_valid_email parseaddr ''not-an-email''"
    by (simp add: is_valid_email_def)
  obtain n' e' where q: "parseaddr ''user@'' = (n', e')" and "e' = ''user@'' \<or> e' = ''''"
    using assms(2) by (cases "parseaddr ''user@''") auto
  then have c: "\<not> is_valid_email parseaddr ''user@''"
    using bad by (auto simp: is_valid_email_def)
  have s: "strip '''' = ''''"
    by code_simp
  have d: "read_author_email pa ('''' # rest) = Inr (''your.email@example.com'', rest)"
    for pa rest
    by (simp add: s)
  have e: "\<not> is_valid_email pa ''''" for pa
    by (simp add: is_valid_email_def)
  show ?thesis
    using a b c d e by blast
qed

theorem email_validation_witness:
  "snd ((\<lambda>s. ('''', s)) ''user@example.com'') = ''user@example.com''
   \<and> snd ((\<lambda>s. ('''', s)) ''user@'') = ''user@''
   \<and> is_valid_email (\<lambda>s. ('''', s)) ''user@example.com''
   \<and> \<not> is_valid_email (\<lambda>s. ('''', s)) ''not-an-email''
   \<and> \<not> is_valid_email (\<lambda>s. ('''', s)) ''user@''
   \<and> read_author_email (\<lambda>s. ('''', s)) [''''] = Inr (''your.email@example.com'', [])"
proof -
  have h1: "snd ((\<lambda>s. ('''', s)) ''user@example.com'') = ''user@example.com''"
    by simp
  have h2: "snd ((\<lambda>s. ('''', s)) ''user@'') = ''user@''
            \<or> snd ((\<lambda>s::string. ('''', s)) ''user@'') = ''''"
    by simp
  show ?thesis
    using h1 email_validation [of "\<lambda>s. ('''', s)", OF h1 h2] by simp
qed

text \<open>
  C10. The validity check tests the address that the parser extracts, not the raw
  input: for every parser and every input, the verdict is that the input is not empty
  and has an \<open>@\<close>, and that the extracted address is not empty, has an \<open>@\<close> and
  matches the pattern; the pattern is never matched against the input itself. The
  prompt loop returns the stripped input itself whenever the check accepts it. Provided
  the parser extracts \<open>user@example.com\<close> from \<open>Name <user@example.com>\<close> (as the
  standard library's does), that input is valid although it does not itself match the
  pattern, and the Replacement Table of the run maps the author-email token to the raw
  input.
\<close>

theorem raw_email_is_stored:
  assumes "parseaddr ''Name <user@example.com>'' = (''Name'', ''user@example.com'')"
    and "strip pn \<noteq> []" and "valid_project_name (strip pn)"
  shows "(\<forall>pa e. is_valid_email pa e \<longleftrightarrow>
              e \<noteq> [] \<and> CHR ''@'' \<in> set e \<and> snd (pa e) \<noteq> [] \<and> CHR ''@'' \<in> set (snd (pa e))
              \<and> re_match email_pattern (snd (pa e)))
     \<and> (\<forall>pa e ins. strip e \<noteq> [] \<and> is_valid_email pa (strip e)
            \<longrightarrow> read_author_email pa (e # ins) = Inr (strip e, ins))
     \<and> is_valid_email parseaddr ''Name <user@example.com>''
     \<and> \<not> re_match email_pattern ''Name <user@example.com>''
     \<and> (\<exists>m. collect_metadata parseaddr (pn # d # a # ''Name <user@example.com>'' # g # rest)
               = Inr (m, rest)
            \<and> author_email m = ''Name <user@example.com>''
            \<and> map_of (replacements m) ''{{AUTHOR_EMAIL}}'' = Some ''Name <user@example.com>'')"
proof -
  have ok: "re_match email_pattern ''user@example.com''"
    by code_simp
  have raw: "\<not> re_match email_pattern ''Name <user@example.com>''"
    by code_simp
  have at: "CHR ''@'' \<in> set ''Name <user@example.com>''"
    by simp
  have v: "is_valid_email parseaddr ''Name <user@example.com>''"
    using assms(1) ok at by (simp add: is_valid_email_def)
  have s: "strip ''Name <user@example.com>'' = ''Name <user@example.com>''"
    by code_simp
  have n: "read_project_name (pn # ins) = Inr (strip pn, ins)" for ins
    using assms(2,3) by simp
  have e: "read_author_email parseaddr (''Name <user@example.com>'' # ins)
           = Inr (''Name <user@example.com>'', ins)" for ins
    using v by (simp add: s)
  define m where "m = \<lparr>project_name = strip pn, module_name = derive_module_name (strip pn),
    project_description = (if strip d = [] then ''A Python project: '' @ strip pn else strip d),
    author_name = (if strip a = [] then ''Your Name'' else strip a),
    author_email = ''Name <user@example.com>'',
    github_username = (if strip g = [] then ''yourusername'' else strip g),
    main_class = derive_main_class (derive_module_name (strip pn))\<rparr>"
  have "collect_metadata parseaddr (pn # d # a # ''Name <user@example.com>'' # g # rest)
        = Inr (m, rest)"
    unfolding collect_metadata_def n m_def
    by (simp add: e Let_def del: read_author_email.simps)
  moreover have "author_email m = ''Name <user@example.com>''"
    by (simp add: m_def)
  moreover have "map_of (replacements m) ''{{AUTHOR_EMAIL}}'' = Some ''Name <user@example.com>''"
    by (simp add: m_def replacements_def)
  moreover have "is_valid_email pa e \<longleftrightarrow>
              e \<noteq> [] \<and> CHR ''@'' \<in> set e \<and> snd (pa e) \<noteq> [] \<and> CHR ''@'' \<in> set (snd (pa e))
              \<and> re_match email_pattern (snd (pa e))" for pa e
    by (cases "pa e") (auto simp: is_valid_email_def)
  moreover have "read_author_email pa (e # ins) = Inr (strip e, ins)"
    if "strip e \<noteq> [] \<and> is_valid_email pa (strip e)" for pa e ins
    using that by simp
  ultimately show ?thesis
    using v raw by blast
qed

theorem raw_email_is_stored_witness:
  "(\<lambda>s. if s = ''Name <user@example.com>'' then (''Name'', ''user@example.com'') else ('''', s))
       ''Name <user@example.com>'' = (''Name'', ''user@example.com'')
   \<and> strip ''demo-app'' \<noteq> [] \<and> valid_project_name (strip ''demo-app'')
   \<and> is_valid_email
       (\<lambda>s. if s = ''Name <user@example.com>'' then (''Name'', ''user@example.com'') else ('''', s))
       ''Name <user@example.com>''
   \<and> \<not> re_match email_pattern ''Name <user@example.com>''"
proof -
  let ?pa = "\<lambda>s. if s = ''Name <user@example.com>''
                   then (''Name'', ''user@example.com'') else ('''', s)"
  have h1: "?pa ''Name <user@example.com>'' = (''Name'', ''user@example.com'')"
    by simp
  have s: "strip ''demo-app'' = ''demo-app''"
    by code_simp
  have h2: "strip ''demo-app'' \<noteq> []"
    unfolding s by simp
  have h3: "valid_project_name (strip ''demo-app'')"
    by code_simp
  show ?thesis
    using h1 h2 h3 raw_email_is_stored [of ?pa "''demo-app''", OF h1 h2 h3] by blast
qed

section \<open>Facts about literal replacement\<close>

lemma str_replace_skip:
  assumes "old \<noteq> []" and "\<And>j. j < length a \<Longrightarrow> \<not> prefix old (drop j a @ t)"
  shows "str_replace old new (a @ t) = a @ str_replace old new t"
  using assms(2)
proof (induction a)
  case Nil
  show ?case by simp
next
  case (Cons c a)
  have "\<not> prefix old ((c # a) @ t)"
    using Cons.prems [of 0] by simp
  moreover have "str_replace old new (a @ t) = a @ str_replace old new t"
  proof (rule Cons.IH)
    fix j assume "j < length a"
    then show "\<not> prefix old (drop j a @ t)"
      using Cons.prems [of "Suc j"] by simp
  qed
  ultimately show ?case
    using assms(1) by simp
qed

lemma str_replace_hit:
  assumes "old \<noteq> []"
  shows "str_replace old new (old @ t) = new @ str_replace old new t"
proof -
  obtain c cs where o: "old = c # cs"
    using assms by (cases old) auto
  have "str_replace old new (c # cs @ t) = new @ str_replace old new (drop (length old) (c # cs @ t))"
    using assms by (simp add: o)
  then show ?thesis
    by (simp add: o)
qed

lemma no_overlap_no_prefix:
  assumes "\<not> overlaps old a" and "j < length a"
  shows "\<not> prefix old (drop j a @ t)"
proof
  assume "prefix old (drop j a @ t)"
  then have "prefix old (drop j a) \<or> prefix (drop j a) old"
    by (auto simp: prefix_append)
  with assms show False
    by (auto simp: overlaps_def list_ex_iff)
qed

lemma tokens_do_not_overlap:
  "\<forall>k \<in> set placeholder_tokens. \<forall>k' \<in> set placeholder_tokens. k \<noteq> k' \<longrightarrow> \<not> overlaps k k'"
  by code_simp

lemma token_starts_with_brace:
  "k \<in> set placeholder_tokens \<Longrightarrow> k \<noteq> [] \<and> hd k = CHR ''{''"
  by (auto simp: placeholder_tokens_def)

lemma str_replace_literal:
  assumes "k \<in> set placeholder_tokens" and "CHR ''{'' \<notin> set s"
  shows "str_replace k v (s @ t) = s @ str_replace k v t"
proof (rule str_replace_skip)
  show "k \<noteq> []"
    using assms(1) token_starts_with_brace by blast
next
  fix j assume j: "j < length s"
  show "\<not> prefix k (drop j s @ t)"
  proof
    assume p: "prefix k (drop j s @ t)"
    obtain c cs where d: "drop j s = c # cs"
      using j by (cases "drop j s") auto
    then have "c \<in> set s"
      by (metis in_set_dropD list.set_intros(1))
    moreover have "hd k = c"
      using p assms(1) token_starts_with_brace [of k] by (cases k) (auto simp: d)
    ultimately show False
      using assms token_starts_with_brace [of k] by auto
  qed
qed

lemma str_replace_other_token:
  assumes "k \<in> set placeholder_tokens" and "k' \<in> set placeholder_tokens" and "k \<noteq> k'"
  shows "str_replace k v (k' @ t) = k' @ str_replace k v t"
proof (rule str_replace_skip)
  show "k \<noteq> []"
    using assms(1) token_starts_with_brace by blast
next
  fix j assume "j < length k'"
  moreover have "\<not> overlaps k k'"
    using assms tokens_do_not_overlap by blast
  ultimately show "\<not> prefix k (drop j k' @ t)"
    by (rule no_overlap_no_prefix [rotated])
qed

lemma str_replace_template:
  assumes "k \<in> set placeholder_tokens" and "plain_template segs"
  shows "str_replace k v (template_text segs) = template_text (map (fill [(k, v)]) segs)"
  using assms(2)
proof (induction segs)
  case Nil
  then show ?case
    using assms(1) token_starts_with_brace [of k] by (simp add: template_text_def)
next
  case (Cons seg segs)
  then have ih: "str_replace k v (template_text segs) = template_text (map (fill [(k, v)]) segs)"
    and seg: "plain_segment seg"
    by (simp_all add: plain_template_def)
  have ne: "k \<noteq> []"
    using assms(1) token_starts_with_brace by blast
  show ?case
  proof (cases seg)
    case (Lit s)
    with seg ih show ?thesis
      using str_replace_literal [OF assms(1), of s v "template_text segs"]
      by (simp add: template_text_def)
  next
    case (Tok k')
    show ?thesis
    proof (cases "k' = k")
      case True
      with Tok ih show ?thesis
        using str_replace_hit [OF ne, of v "template_text segs"]
        by (simp add: template_text_def)
    next
      case False
      with Tok seg ih show ?thesis
        using str_replace_other_token [OF assms(1), of k' v "template_text segs"]
        by (simp add: template_text_def)
    qed
  qed
qed

lemma plain_template_fill:
  assumes "plain_template segs" and "CHR ''{'' \<notin> set v"
  shows "plain_template (map (fill [(k, v)]) segs)"
proof -
  have "plain_segment (fill [(k, v)] seg)" if "plain_segment seg" for seg
    using that assms(2) by (cases seg) auto
  with assms(1) show ?thesis
    by (simp add: plain_template_def list_all_iff)
qed

lemma fill_Cons: "fill table (fill [(k, v)] seg) = fill ((k, v) # table) seg"
  by (cases seg) auto

lemma apply_replacements_template:
  assumes "set (map fst table) \<subseteq> set placeholder_tokens"
    and "brace_free_values table" and "plain_template segs"
  shows "apply_replacements table (template_text segs) = template_text (map (fill table) segs)"
  using assms
proof (induction table arbitrary: segs)
  case Nil
  have "fill [] seg = seg" for seg
    by (cases seg) auto
  then show ?case
    by (simp add: apply_replacements_def)
next
  case (Cons kv table)
  obtain k v where kv: "kv = (k, v)"
    by (cases kv)
  have k: "k \<in> set placeholder_tokens" and v: "CHR ''{'' \<notin> set v"
    using Cons.prems by (auto simp: kv brace_free_values_def)
  have "apply_replacements (kv # table) (template_text segs)
        = apply_replacements table (str_replace k v (template_text segs))"
    by (simp add: apply_replacements_def kv)
  also have "\<dots> = apply_replacements table (template_text (map (fill [(k, v)]) segs))"
    using str_replace_template [OF k Cons.prems(3)] by simp
  also have "\<dots> = template_text (map (fill table) (map (fill [(k, v)]) segs))"
  proof (rule Cons.IH)
    show "set (map fst table) \<subseteq> set placeholder_tokens"
      using Cons.prems(1) by simp
    show "brace_free_values table"
      using Cons.prems(2) by (simp add: brace_free_values_def)
    show "plain_template (map (fill [(k, v)]) segs)"
      using Cons.prems(3) v by (rule plain_template_fill)
  qed
  also have "\<dots> = template_text (map (fill (kv # table)) segs)"
    by (simp add: fill_Cons kv comp_def)
  finally show ?case .
qed

lemma replacements_keys: "map fst (replacements m) = placeholder_tokens"
  by (simp add: replacements_def placeholder_tokens_def)

lemma distinct_placeholder_tokens: "distinct placeholder_tokens"
  by (simp add: placeholder_tokens_def)

lemma map_of_permutation:
  assumes "mset table' = mset table" and "distinct (map fst table)"
  shows "map_of table' = map_of table"
proof -
  have "mset (map fst table') = mset (map fst table)"
    using assms(1) by (metis mset_map)
  then have "distinct (map fst table')"
    using assms(2) by (metis mset_eq_imp_distinct_iff)
  moreover have "set table' = set table"
    using assms(1) by (rule mset_eq_setD)
  ultimately show ?thesis
    using assms(2) by (simp add: map_of_inject_set)
qed

lemma fill_cong: "map_of table' = map_of table \<Longrightarrow> fill table' seg = fill table seg"
  by (cases seg) auto

lemma no_brace_no_placeholder: "CHR ''{'' \<notin> set s \<Longrightarrow> \<not> has_placeholder s"
proof
  assume s: "CHR ''{'' \<notin> set s" and "has_placeholder s"
  then obtain k where k: "k \<in> set placeholder_tokens" and sub: "sublist k s"
    by (auto simp: has_placeholder_def list_ex_iff)
  have "CHR ''{'' \<in> set k"
    using k by (auto simp: placeholder_tokens_def)
  moreover have "set k \<subseteq> set s"
    using sub by (rule set_mono_sublist)
  ultimately show False
    using s by blast
qed

lemma filled_template_brace_free:
  assumes "set placeholder_tokens \<subseteq> set (map fst table)"
    and "brace_free_values table" and "plain_template segs"
  shows "CHR ''{'' \<notin> set (template_text (map (fill table) segs))"
proof -
  have "CHR ''{'' \<notin> set (segment_text (fill table seg))" if "plain_segment seg" for seg
  proof (cases seg)
    case (Lit s)
    with that show ?thesis by simp
  next
    case (Tok k)
    with that assms(1) have "k \<in> fst ` set table"
      by auto
    then obtain v where m: "map_of table k = Some v"
      by (metis domD dom_map_of_conv_image_fst)
    then have "(k, v) \<in> set table"
      by (rule map_of_SomeD)
    then have "CHR ''{'' \<notin> set v"
      using assms(2) by (auto simp: brace_free_values_def list_all_iff)
    with Tok m show ?thesis by simp
  qed
  with assms(3) show ?thesis
    by (auto simp: template_text_def plain_template_def list_all_iff)
qed

section \<open>Claims about the order of the table\<close>

text \<open>
  C9, as amended. When no value of the Replacement Table contains an opening brace and
  the name is a plain template text (text without opening braces, interleaved with
  whole placeholder tokens), applying the seven entries in any permutation of the
  table's order gives the same string as applying them in the table's order.
\<close>

theorem replacement_order_irrelevant:
  assumes "mset table' = mset (replacements m)"
    and "brace_free_values (replacements m)"
    and "plain_template segs"
  shows "apply_replacements table' (template_text segs)
         = apply_replacements (replacements m) (template_text segs)"
proof -
  have d: "distinct (map fst (replacements m))"
    by (simp add: replacements_keys distinct_placeholder_tokens)
  have eq: "map_of table' = map_of (replacements m)"
    using assms(1) d by (rule map_of_permutation)
  have s: "set table' = set (replacements m)"
    using assms(1) by (rule mset_eq_setD)
  have keys': "set (map fst table') \<subseteq> set placeholder_tokens"
    using s replacements_keys [of m] by (metis set_map subset_refl)
  have values': "brace_free_values table'"
    using assms(2) s by (simp add: brace_free_values_def list_all_iff)
  have "apply_replacements table' (template_text segs) = template_text (map (fill table') segs)"
    using keys' values' assms(3) by (rule apply_replacements_template)
  also have "\<dots> = template_text (map (fill (replacements m)) segs)"
  proof -
    have "fill table' = fill (replacements m)"
      by (rule ext) (rule fill_cong [OF eq])
    then show ?thesis by simp
  qed
  also have "\<dots> = apply_replacements (replacements m) (template_text segs)"
    using apply_replacements_template [of "replacements m" segs] assms(2,3)
    by (simp add: replacements_keys)
  finally show ?thesis .
qed

text \<open>
  The claim as stated fails twice over. A description that mentions a token: the table's
  order leaves \<open>{{PROJECT_NAME}}\<close> in the result, the reversed order resolves it. And
  with brace-free values, a name in which one token is nested in another.
\<close>

theorem replacement_order_counterexample:
  "collect_metadata (\<lambda>s. ('''', s)) [''demo-app'', ''About {{PROJECT_NAME}}'', '''', '''', '''']
     = Inr (description_with_token, [])
   \<and> mset (rev (replacements description_with_token)) = mset (replacements description_with_token)
   \<and> apply_replacements (replacements description_with_token) ''{{PROJECT_DESCRIPTION}}''
       = ''About {{PROJECT_NAME}}''
   \<and> apply_replacements (rev (replacements description_with_token)) ''{{PROJECT_DESCRIPTION}}''
       = ''About demo-app''
   \<and> collect_metadata (\<lambda>s. ('''', s)) [''NAME'', '''', ''Ada'', '''', '''']
       = Inr (project_called_name, [])
   \<and> brace_free_values (replacements project_called_name)
   \<and> apply_replacements (replacements project_called_name) ''{{AUTHOR_{{PROJECT_NAME}}}}''
       = ''Ada''
   \<and> apply_replacements (rev (replacements project_called_name)) ''{{AUTHOR_{{PROJECT_NAME}}}}''
       = ''{{AUTHOR_NAME}}''"
proof -
  have "collect_metadata (\<lambda>s. ('''', s)) [''demo-app'', ''About {{PROJECT_NAME}}'', '''', '''', '''']
     = Inr (description_with_token, [])"
    by code_simp
  moreover have "apply_replacements (replacements description_with_token) ''{{PROJECT_DESCRIPTION}}''
       = ''About {{PROJECT_NAME}}''"
    by code_simp
  moreover have "apply_replacements (rev (replacements description_with_token)) ''{{PROJECT_DESCRIPTION}}''
       = ''About demo-app''"
    by code_simp
  moreover have "collect_metadata (\<lambda>s. ('''', s)) [''NAME'', '''', ''Ada'', '''', '''']
       = Inr (project_called_name, [])"
    by code_simp
  moreover have "brace_free_values (replacements project_called_name)"
    by code_simp
  moreover have "apply_replacements (replacements project_called_name) ''{{AUTHOR_{{PROJECT_NAME}}}}''
       = ''Ada''"
    by code_simp
  moreover have "apply_replacements (rev (replacements project_called_name)) ''{{AUTHOR_{{PROJECT_NAME}}}}''
       = ''{{AUTHOR_NAME}}''"
    by code_simp
  ultimately show ?thesis
    by simp
qed

theorem replacement_order_irrelevant_witness:
  "mset (rev (replacements project_called_name)) = mset (replacements project_called_name)
   \<and> brace_free_values (replacements project_called_name)
   \<and> plain_template [Tok ''{{MODULE_NAME}}'', Lit ''_config.py'']
   \<and> apply_replacements (rev (replacements project_called_name)) ''{{MODULE_NAME}}_config.py''
       = ''name_config.py''
   \<and> apply_replacements (replacements project_called_name) ''{{MODULE_NAME}}_config.py''
       = ''name_config.py''"
proof -
  have h1: "mset (rev (replacements project_called_name)) = mset (replacements project_called_name)"
    by simp
  have h2: "brace_free_values (replacements project_called_name)"
    by code_simp
  have h3: "plain_template [Tok ''{{MODULE_NAME}}'', Lit ''_config.py'']"
    by code_simp
  have t: "template_text [Tok ''{{MODULE_NAME}}'', Lit ''_config.py''] = ''{{MODULE_NAME}}_config.py''"
    by (simp add: template_text_def)
  have r: "apply_replacements (replacements project_called_name) ''{{MODULE_NAME}}_config.py''
       = ''name_config.py''"
    by code_simp
  show ?thesis
    using h1 h2 h3 r replacement_order_irrelevant [OF h1 h2 h3] unfolding t by simp
qed

section \<open>Facts about nested tokens\<close>


lemma token_shape:
  "k \<in> set placeholder_tokens \<Longrightarrow>
     \<exists>N. k = ''{{'' @ N @ ''}}'' \<and> N \<noteq> [] \<and> (\<forall>c \<in> set N. name_char c)"
  unfolding placeholder_tokens_def name_char_def upper_letters_def
  by (elim disjE | simp)+

lemma brace_not_name_char: "\<not> name_char CHR ''{''" "\<not> name_char CHR ''}''"
  by (simp_all add: name_char_def upper_letters_def)

lemma nested_atI:
  assumes "prefix (''{{'' @ W @ k) t" and "\<forall>c \<in> set W. name_char c"
    and "k \<in> set placeholder_tokens"
  shows "nested_at t"
proof -
  obtain r where t: "t = ''{{'' @ W @ k @ r"
    using assms(1) by (auto simp: prefix_def)
  obtain N where k: "k = ''{{'' @ N @ ''}}''"
    using token_shape [OF assms(3)] by blast
  have "dropWhile name_char (W @ k @ r) = k @ r"
    using assms(2) by (simp add: dropWhile_append k brace_not_name_char)
  then have "prefix k (dropWhile name_char (drop 2 t))"
    by (simp add: t)
  with assms(3) have "list_ex (\<lambda>k. prefix k (dropWhile name_char (drop 2 t))) placeholder_tokens"
    unfolding list_ex_iff by blast
  then show ?thesis
    by (simp add: nested_at_def t)
qed

lemma no_nested_token_drop: "no_nested_token t \<Longrightarrow> no_nested_token (drop j t)"
proof (induction t arbitrary: j)
  case (Cons c cs)
  then show ?case by (cases j) auto
qed simp

lemma no_nested_token_suffix: "no_nested_token (a @ t) \<Longrightarrow> no_nested_token t"
  using no_nested_token_drop [of "a @ t" "length a"] by simp

lemma no_nested_token_not_nested: "no_nested_token t \<Longrightarrow> \<not> nested_at t"
  by (cases t) (auto simp: nested_at_def)

text \<open>Where a replacement lets a pattern start that did not start there before.\<close>

lemma replacement_aligns:
  assumes "k \<noteq> []" and "v \<noteq> []"
    and "prefix P (a @ str_replace k v t)" and "\<not> prefix P (a @ t)"
  shows "\<exists>u r. t = u @ k @ r \<and> length (a @ u) < length P \<and> prefix (a @ u) P
           \<and> P ! length (a @ u) = hd v"
  using assms(3,4)
proof (induction t arbitrary: a)
  case Nil
  then show ?case using assms(1) by simp
next
  case (Cons c cs)
  show ?case
  proof (cases "prefix k (c # cs)")
    case True
    then obtain r where r: "c # cs = k @ r"
      by (auto simp: prefix_def)
    from True Cons.prems(1) assms(1)
    have p: "prefix P (a @ v @ str_replace k v (drop (length k) (c # cs)))"
      by simp
    have len: "length a < length P"
    proof (rule ccontr)
      assume "\<not> length a < length P"
      with p have "prefix P a"
        by (auto simp: prefix_def append_eq_append_conv2)
      then have "prefix P (a @ c # cs)"
        by (rule prefix_prefix)
      with Cons.prems(2) show False by simp
    qed
    obtain z where z: "a @ v @ str_replace k v (drop (length k) (c # cs)) = P @ z"
      using p by (auto simp: prefix_def)
    have pa: "prefix a P"
      using z len by (auto simp: prefix_def append_eq_append_conv2)
    have "P ! length a = (a @ v @ str_replace k v (drop (length k) (c # cs))) ! length a"
      unfolding z using len by (simp add: nth_append)
    also have "\<dots> = hd v"
      using assms(2) by (cases v) (auto simp: nth_append)
    finally have "P ! length a = hd v" .
    with r len pa have "c # cs = [] @ k @ r \<and> length (a @ []) < length P \<and> prefix (a @ []) P
           \<and> P ! length (a @ []) = hd v"
      by simp
    then show ?thesis by blast
  next
    case False
    with Cons.prems assms(1) have "prefix P ((a @ [c]) @ str_replace k v cs)"
      and "\<not> prefix P ((a @ [c]) @ cs)"
      by simp_all
    from Cons.IH [OF this] obtain u r where "cs = u @ k @ r"
      and "length ((a @ [c]) @ u) < length P" and "prefix ((a @ [c]) @ u) P"
      and "P ! length ((a @ [c]) @ u) = hd v"
      by blast
    then have "c # cs = (c # u) @ k @ r \<and> length (a @ c # u) < length P \<and> prefix (a @ c # u) P
           \<and> P ! length (a @ c # u) = hd v"
      by simp
    then show ?thesis by blast
  qed
qed

lemma split_in_letters:
  assumes "''{{'' @ N @ B = u @ x # rest" and "x \<noteq> CHR ''{''"
  shows "(\<exists>W n'. u = ''{{'' @ W \<and> N = W @ x # n')
       \<or> (\<exists>w. u = ''{{'' @ N @ w \<and> B = w @ x # rest)"
proof -
  obtain u' where u: "u = CHR ''{'' # CHR ''{'' # u'"
    using assms by (cases u; cases "tl u") auto
  with assms(1) have "N @ B = u' @ x # rest"
    by simp
  then show ?thesis
    unfolding u by (auto simp: append_eq_append_conv2 append_eq_Cons_conv Cons_eq_append_conv)
qed

lemma prefix_next:
  assumes "prefix u P" and "length u < length P"
  shows "\<exists>rest. P = u @ (P ! length u) # rest"
proof -
  have "take (length u) P = u"
    using assms(1) by (auto simp: prefix_def)
  with id_take_nth_drop [OF assms(2)] show ?thesis
    by auto
qed

lemma key_formed:
  assumes "k \<in> set placeholder_tokens" and "k' \<in> set placeholder_tokens"
    and "v \<noteq> []" and "CHR ''{'' \<notin> set v" and "CHR ''}'' \<notin> set v"
    and "prefix k' (str_replace k v t)" and "\<not> prefix k' t"
  shows "nested_at t"
proof -
  have kne: "k \<noteq> []"
    using token_starts_with_brace [OF assms(1)] by simp
  from replacement_aligns [of k v k' "[]" t, simplified, OF kne assms(3) assms(6,7)]
  obtain u r where t: "t = u @ k @ r" and len: "length u < length k'" and pre: "prefix u k'"
    and at: "k' ! length u = hd v"
    by blast
  obtain N where k': "k' = ''{{'' @ N @ ''}}''" and N: "\<forall>c \<in> set N. name_char c"
    using token_shape [OF assms(2)] by blast
  from prefix_next [OF pre len] obtain rest where "k' = u @ (k' ! length u) # rest"
    by blast
  then have "k' = u @ hd v # rest"
    unfolding at .
  then have eq: "''{{'' @ N @ ''}}'' = u @ hd v # rest"
    unfolding k' by simp
  have hv: "hd v \<in> set v"
    using assms(3) by simp
  then have nb: "hd v \<noteq> CHR ''{''" "hd v \<noteq> CHR ''}''"
    using assms(4,5) by auto
  from split_in_letters [OF eq nb(1)]
  obtain W n' where "u = ''{{'' @ W" and "N = W @ hd v # n'"
    using nb(2) by (auto simp: Cons_eq_append_conv)
  then have "prefix (''{{'' @ W @ k) t" and "\<forall>c \<in> set W. name_char c"
    using N by (auto simp: t)
  then show ?thesis
    using assms(1) by (rule nested_atI)
qed

lemma nested_atD:
  assumes "nested_at s"
  shows "\<exists>W k. prefix (''{{'' @ W @ k) s \<and> (\<forall>c \<in> set W. name_char c)
           \<and> k \<in> set placeholder_tokens"
proof -
  from assms obtain s' where s: "s = ''{{'' @ s'"
    by (auto simp: nested_at_def prefix_def)
  from assms obtain k where k: "k \<in> set placeholder_tokens"
    and p: "prefix k (dropWhile name_char s')"
    by (auto simp: nested_at_def s list_ex_iff)
  have "s' = takeWhile name_char s' @ dropWhile name_char s'"
    by simp
  with p have "prefix (takeWhile name_char s' @ k) s'"
    by (metis same_prefix_prefix)
  then have "prefix (''{{'' @ takeWhile name_char s' @ k) s"
    by (simp add: s)
  moreover have "\<forall>c \<in> set (takeWhile name_char s'). name_char c"
    by (auto dest: set_takeWhileD)
  ultimately show ?thesis
    using k by blast
qed

lemma nested_at_replaced:
  assumes "k \<in> set placeholder_tokens"
    and "v \<noteq> []" and "CHR ''{'' \<notin> set v" and "CHR ''}'' \<notin> set v"
    and "nested_at (str_replace k v t)"
  shows "\<exists>j. nested_at (drop j t)"
proof -
  have kne: "k \<noteq> []"
    using token_starts_with_brace [OF assms(1)] by simp
  have hv: "hd v \<in> set v"
    using assms(2) by simp
  then have nb: "hd v \<noteq> CHR ''{''" "hd v \<noteq> CHR ''}''"
    using assms(3,4) by auto
  from nested_atD [OF assms(5)] obtain W k2 where
    P: "prefix (''{{'' @ W @ k2) (str_replace k v t)"
    and W: "\<forall>c \<in> set W. name_char c" and k2: "k2 \<in> set placeholder_tokens"
    by blast
  show ?thesis
  proof (cases "prefix (''{{'' @ W @ k2) t")
    case True
    then have "nested_at t"
      using W k2 by (rule nested_atI)
    then have "nested_at (drop 0 t)"
      by simp
    then show ?thesis ..
  next
    case False
    from replacement_aligns [of k v "''{{'' @ W @ k2" "[]" t, simplified append_Nil, OF kne assms(2) P False]
    obtain u r where t: "t = u @ k @ r" and len: "length u < length (''{{'' @ W @ k2)"
      and pre: "prefix u (''{{'' @ W @ k2)" and at: "(''{{'' @ W @ k2) ! length u = hd v"
      by blast
    from prefix_next [OF pre len]
    obtain rest where "''{{'' @ W @ k2 = u @ ((''{{'' @ W @ k2) ! length u) # rest"
      by blast
    then have eq: "''{{'' @ W @ k2 = u @ hd v # rest"
      unfolding at .
    from split_in_letters [OF eq nb(1)]
    consider W1 n' where "u = ''{{'' @ W1" and "W = W1 @ hd v # n'"
      | w where "u = ''{{'' @ W @ w" and "k2 = w @ hd v # rest"
      by blast
    then show ?thesis
    proof cases
      case 1
      then have "prefix (''{{'' @ W1 @ k) t" and "\<forall>c \<in> set W1. name_char c"
        using W by (auto simp: t)
      then have "nested_at t"
        using assms(1) by (rule nested_atI)
      then have "nested_at (drop 0 t)"
        by simp
      then show ?thesis ..
    next
      case 2
      obtain N2 where k2s: "k2 = ''{{'' @ N2 @ ''}}''" and N2: "\<forall>c \<in> set N2. name_char c"
        using token_shape [OF k2] by blast
      from 2(2) have "''{{'' @ N2 @ ''}}'' = w @ hd v # rest"
        unfolding k2s .
      from split_in_letters [OF this nb(1)]
      obtain W2 n' where w: "w = ''{{'' @ W2" and "N2 = W2 @ hd v # n'"
        using nb(2) by (auto simp: Cons_eq_append_conv)
      then have W2: "\<forall>c \<in> set W2. name_char c"
        using N2 by auto
      have "drop (length (''{{'' @ W)) t = ''{{'' @ W2 @ k @ r"
        unfolding t 2(1) w by simp
      then have "prefix (''{{'' @ W2 @ k) (drop (length (''{{'' @ W)) t)"
        by simp
      then have "nested_at (drop (length (''{{'' @ W)) t)"
        using W2 assms(1) by (rule nested_atI)
      then show ?thesis ..
    qed
  qed
qed

lemma no_nested_token_value:
  "CHR ''{'' \<notin> set v \<Longrightarrow> no_nested_token r \<Longrightarrow> no_nested_token (v @ r)"
  by (induction v) (auto simp: nested_at_def)

lemma no_nested_token_all:
  "no_nested_token t \<longleftrightarrow> (\<forall>j. \<not> nested_at (drop j t))"
proof
  assume "no_nested_token t"
  then show "\<forall>j. \<not> nested_at (drop j t)"
    using no_nested_token_drop no_nested_token_not_nested by blast
next
  show "\<forall>j. \<not> nested_at (drop j t) \<Longrightarrow> no_nested_token t"
  proof (induction t)
    case (Cons c cs)
    have "\<not> nested_at (drop (Suc j) (c # cs))" for j
      using Cons.prems by blast
    then have "no_nested_token cs"
      using Cons.IH by simp
    moreover have "\<not> nested_at (drop 0 (c # cs))"
      using Cons.prems by blast
    ultimately show ?case by simp
  qed simp
qed

lemma no_nested_token_replace:
  assumes "k \<in> set placeholder_tokens"
    and "v \<noteq> []" and "CHR ''{'' \<notin> set v" and "CHR ''}'' \<notin> set v"
    and "no_nested_token s"
  shows "no_nested_token (str_replace k v s)"
proof -
  have kne: "k \<noteq> []"
    using token_starts_with_brace [OF assms(1)] by simp
  show ?thesis
    using assms(5)
  proof (induction s rule: length_induct)
    case (1 s)
    show ?case
    proof (cases s)
      case Nil
      then show ?thesis using kne by simp
    next
      case (Cons c cs)
      show ?thesis
      proof (cases "prefix k s")
        case True
        have eq: "str_replace k v s = v @ str_replace k v (drop (length k) s)"
          using True kne by (simp add: Cons)
        have "length (drop (length k) s) < length s"
          using kne Cons by simp
        moreover have "no_nested_token (drop (length k) s)"
          using "1.prems" by (rule no_nested_token_drop)
        ultimately have "no_nested_token (str_replace k v (drop (length k) s))"
          using "1.IH" by blast
        with assms(3) show ?thesis
          unfolding eq by (rule no_nested_token_value)
      next
        case False
        have eq: "str_replace k v s = c # str_replace k v cs"
          using False kne by (simp add: Cons)
        have "no_nested_token cs"
          using "1.prems" Cons by simp
        then have r: "no_nested_token (str_replace k v cs)"
          using "1.IH" Cons by simp
        have "\<not> nested_at (str_replace k v s)"
        proof
          assume "nested_at (str_replace k v s)"
          with assms(1-4) have "\<exists>j. nested_at (drop j s)"
            by (rule nested_at_replaced)
          with "1.prems" show False
            by (simp add: no_nested_token_all)
        qed
        with r show ?thesis
          unfolding eq by simp
      qed
    qed
  qed
qed

lemma key_does_not_start_in_value:
  assumes "k \<in> set placeholder_tokens" and "CHR ''{'' \<notin> set v" and "sublist k (v @ r)"
  shows "sublist k r"
  using assms(2,3)
proof (induction v)
  case (Cons x v)
  have "\<not> prefix k (x # v @ r)"
    using token_starts_with_brace [OF assms(1)] Cons.prems(1)
    by (cases k) auto
  with Cons show ?case
    by (auto simp: sublist_Cons_right)
qed simp

lemma no_key_after_replace:
  assumes "k \<in> set placeholder_tokens" and "k' \<in> set placeholder_tokens"
    and "v \<noteq> []" and "CHR ''{'' \<notin> set v" and "CHR ''}'' \<notin> set v"
    and "no_nested_token s" and "k' = k \<or> \<not> sublist k' s"
  shows "\<not> sublist k' (str_replace k v s)"
proof -
  have kne: "k \<noteq> []"
    using token_starts_with_brace [OF assms(1)] by simp
  show ?thesis
    using assms(6,7)
  proof (induction s rule: length_induct)
    case (1 s)
    show ?case
    proof (cases s)
      case Nil
      then show ?thesis
        using kne token_starts_with_brace [OF assms(2)] by simp
    next
      case (Cons c cs)
      show ?thesis
      proof (cases "prefix k s")
        case True
        have eq: "str_replace k v s = v @ str_replace k v (drop (length k) s)"
          using True kne by (simp add: Cons)
        have "length (drop (length k) s) < length s"
          using kne Cons by simp
        moreover have "no_nested_token (drop (length k) s)"
          using "1.prems"(1) by (rule no_nested_token_drop)
        moreover have "k' = k \<or> \<not> sublist k' (drop (length k) s)"
          using "1.prems"(2) sublist_drop sublist_order.order_trans by blast
        ultimately have "\<not> sublist k' (str_replace k v (drop (length k) s))"
          using "1.IH" by blast
        then show ?thesis
          unfolding eq using key_does_not_start_in_value [OF assms(2,4)] by blast
      next
        case False
        have eq: "str_replace k v s = c # str_replace k v cs"
          using False kne by (simp add: Cons)
        have "no_nested_token cs"
          using "1.prems"(1) Cons by simp
        moreover have "k' = k \<or> \<not> sublist k' cs"
          using "1.prems"(2) Cons by (auto simp: sublist_Cons_right)
        moreover have "length cs < length s"
          using Cons by simp
        ultimately have r: "\<not> sublist k' (str_replace k v cs)"
          using "1.IH" by blast
        have "\<not> prefix k' (str_replace k v s)"
        proof
          assume p: "prefix k' (str_replace k v s)"
          have "\<not> prefix k' s"
            using "1.prems"(2) False by auto
          with assms(1-5) p have "nested_at s"
            by (rule key_formed)
          with "1.prems"(1) show False
            using no_nested_token_not_nested by blast
        qed
        with r show ?thesis
          unfolding eq by (simp add: sublist_Cons_right)
      qed
    qed
  qed
qed



lemma usable_valuesD:
  "usable_values table \<Longrightarrow> (k, v) \<in> set table \<Longrightarrow>
     v \<noteq> [] \<and> CHR ''{'' \<notin> set v \<and> CHR ''}'' \<notin> set v"
  by (auto simp: usable_values_def list_all_iff)

lemma apply_replacements_Cons:
  "apply_replacements ((k, v) # table) s = apply_replacements table (str_replace k v s)"
  by (simp add: apply_replacements_def)

lemma apply_no_nested_token:
  assumes "set (map fst table) \<subseteq> set placeholder_tokens" and "usable_values table"
    and "no_nested_token s"
  shows "no_nested_token (apply_replacements table s)"
  using assms
proof (induction table arbitrary: s)
  case Nil
  then show ?case by (simp add: apply_replacements_def)
next
  case (Cons kv table)
  obtain k v where kv: "kv = (k, v)" by (cases kv)
  have k: "k \<in> set placeholder_tokens"
    using Cons.prems(1) kv by simp
  have v: "v \<noteq> []" "CHR ''{'' \<notin> set v" "CHR ''}'' \<notin> set v"
    using usable_valuesD [OF Cons.prems(2), of k v] kv by simp_all
  have "no_nested_token (str_replace k v s)"
    using k v Cons.prems(3) by (rule no_nested_token_replace)
  moreover have "usable_values table"
    using Cons.prems(2) by (simp add: usable_values_def)
  moreover have "set (map fst table) \<subseteq> set placeholder_tokens"
    using Cons.prems(1) by simp
  ultimately show ?case
    unfolding kv apply_replacements_Cons using Cons.IH by blast
qed

lemma apply_keeps_key_out:
  assumes "set (map fst table) \<subseteq> set placeholder_tokens" and "usable_values table"
    and "no_nested_token s" and "k' \<in> set placeholder_tokens"
    and "k' \<in> set (map fst table) \<or> \<not> sublist k' s"
  shows "\<not> sublist k' (apply_replacements table s)"
  using assms(1,2,3,5)
proof (induction table arbitrary: s)
  case Nil
  then show ?case by (simp add: apply_replacements_def)
next
  case (Cons kv table)
  obtain k v where kv: "kv = (k, v)" by (cases kv)
  have k: "k \<in> set placeholder_tokens"
    using Cons.prems(1) kv by simp
  have v: "v \<noteq> []" "CHR ''{'' \<notin> set v" "CHR ''}'' \<notin> set v"
    using usable_valuesD [OF Cons.prems(2), of k v] kv by simp_all
  have n: "no_nested_token (str_replace k v s)"
    using k v Cons.prems(3) by (rule no_nested_token_replace)
  have u: "usable_values table"
    using Cons.prems(2) by (simp add: usable_values_def)
  have t: "set (map fst table) \<subseteq> set placeholder_tokens"
    using Cons.prems(1) by simp
  have "k' \<in> set (map fst table) \<or> \<not> sublist k' (str_replace k v s)"
  proof (cases "k' \<in> set (map fst table)")
    case False
    with Cons.prems(4) kv have "k' = k \<or> \<not> sublist k' s"
      by auto
    with k assms(4) v Cons.prems(3) have "\<not> sublist k' (str_replace k v s)"
      by (rule no_key_after_replace)
    then show ?thesis ..
  qed simp
  with t u n show ?case
    unfolding kv apply_replacements_Cons by (rule Cons.IH)
qed

lemma usable_no_placeholder:
  assumes "usable_values (replacements m)" and "no_nested_token s"
  shows "\<not> has_placeholder (apply_replacements (replacements m) s)"
proof -
  have "\<not> sublist k (apply_replacements (replacements m) s)"
    if "k \<in> set placeholder_tokens" for k
    using that assms by (intro apply_keeps_key_out) (simp_all add: replacements_keys)
  then show ?thesis
    by (simp add: has_placeholder_def list_ex_iff)
qed

lemma str_replace_absent:
  assumes "k \<noteq> []" and "\<not> sublist k s"
  shows "str_replace k v s = s"
proof -
  have "\<not> prefix k (drop j s @ [])" for j
  proof
    assume "prefix k (drop j s @ [])"
    then have "sublist k (drop j s)"
      by simp
    then have "sublist k s"
      using sublist_drop sublist_order.order_trans by blast
    with assms(2) show False ..
  qed
  with str_replace_skip [of k s "[]" v] assms(1) show ?thesis
    by simp
qed

lemma apply_without_placeholder:
  assumes "set (map fst table) \<subseteq> set placeholder_tokens" and "\<not> has_placeholder s"
  shows "apply_replacements table s = s"
  using assms(1)
proof (induction table)
  case Nil
  then show ?case by (simp add: apply_replacements_def)
next
  case (Cons kv table)
  obtain k v where kv: "kv = (k, v)" by (cases kv)
  have k: "k \<in> set placeholder_tokens"
    using Cons.prems kv by simp
  then have "\<not> sublist k s"
    using assms(2) by (auto simp: has_placeholder_def list_ex_iff)
  moreover have "k \<noteq> []"
    using token_starts_with_brace [OF k] by simp
  ultimately have "str_replace k v s = s"
    using str_replace_absent by blast
  then show ?case
    unfolding kv apply_replacements_Cons using Cons by simp
qed

lemma no_placeholder_no_nested: "\<not> has_placeholder s \<Longrightarrow> no_nested_token s"
proof -
  assume a: "\<not> has_placeholder s"
  have "\<not> nested_at (drop j s)" for j
  proof
    assume "nested_at (drop j s)"
    from nested_atD [OF this] obtain W k where "prefix (''{{'' @ W @ k) (drop j s)"
      and k: "k \<in> set placeholder_tokens"
      by blast
    then have "sublist k (drop j s)"
      by (auto simp: prefix_def sublist_def) (metis append.assoc append_Cons)
    then have "sublist k s"
      using sublist_drop sublist_order.order_trans by blast
    with a k show False
      by (auto simp: has_placeholder_def list_ex_iff)
  qed
  then show ?thesis
    by (simp add: no_nested_token_all)
qed

lemma split_on_first: "split_on sep s = w # ws \<Longrightarrow> prefix w s"
  by (induction s arbitrary: w ws) (auto split: if_splits list.splits)

lemma split_on_sublist: "c \<in> set (split_on sep s) \<Longrightarrow> sublist c s"
proof (induction s arbitrary: c)
  case Nil
  then show ?case by simp
next
  case (Cons x xs)
  show ?case
  proof (cases "x = sep")
    case True
    with Cons show ?thesis
      by (auto simp: sublist_Cons_right)
  next
    case False
    show ?thesis
    proof (cases "split_on sep xs")
      case Nil
      with Cons.prems False show ?thesis
        by simp
    next
      case (Cons w ws)
      then have "prefix w xs"
        by (rule split_on_first)
      then have "prefix (x # w) (x # xs)"
        by simp
      moreover have "sublist c xs" if "c \<in> set ws"
        using that Cons.IH Cons by simp
      ultimately show ?thesis
        using Cons.prems False Cons by (auto simp: sublist_Cons_right)
    qed
  qed
qed

section \<open>Facts about the module directory\<close>

lemma lookup_put: "put fs p n = Inr fs' \<Longrightarrow> lookup fs' p = Some n"
proof (induction fs p n arbitrary: fs' rule: put.induct)
  case (3 es x p n)
  then show ?case
    by (auto split: sum.splits simp: update_conv')
qed auto

lemma exists_remove_other:
  "\<not> prefix q p \<Longrightarrow> path_exists (remove fs q) p = path_exists fs p"
  unfolding path_exists_def
proof (induction fs q arbitrary: p rule: remove.induct)
  case (1 n)
  then show ?case by simp
next
  case (2 f x q)
  then show ?case by simp
next
  case (3 es x)
  then show ?case
    by (cases p) (auto simp: delete_conv')
next
  case (4 es x y q)
  then show ?case
    by (cases p) (auto simp: update_conv' split: option.splits)
qed

lemma module_name_is_not_the_token:
  "module_identifier_shape mn \<Longrightarrow> mn \<noteq> ''{{MODULE_NAME}}''"
  by (auto simp: module_identifier_shape_def lower_letters_def digits_def)

lemma fix_src_layout_exists:
  assumes "mn \<noteq> ''{{MODULE_NAME}}''"
    and "fix_src_layout template_dir fs target_dir mn = Inr fs'"
  shows "path_exists fs' (target_dir @ [''src'', mn])"
proof (cases "path_exists fs (target_dir @ [''src'', mn])")
  case True
  with assms(2) show ?thesis
    by (simp add: fix_src_layout_def)
next
  case False
  with assms(2) obtain fs1 fs2 where
    c: "copytree fs1 (template_dir @ [''src'', ''{{MODULE_NAME}}'']) (target_dir @ [''src'', mn]) False []
        = Inr fs2"
    and r: "fs' = fs2 \<or> rmtree fs2 (target_dir @ [''src'', ''{{MODULE_NAME}}'']) = Inr fs'"
    by (auto simp: fix_src_layout_def Let_def split: sum.splits if_splits)
  from c have e2: "path_exists fs2 (target_dir @ [''src'', mn])"
    by (auto simp: copytree_def path_exists_def split: option.splits node.splits sum.splits
        dest: lookup_put)
  from r show ?thesis
  proof
    assume "fs' = fs2"
    with e2 show ?thesis by simp
  next
    assume "rmtree fs2 (target_dir @ [''src'', ''{{MODULE_NAME}}'']) = Inr fs'"
    then have "fs' = remove fs2 (target_dir @ [''src'', ''{{MODULE_NAME}}''])"
      by (auto simp: rmtree_def split: option.splits node.splits)
    moreover have "\<not> prefix (target_dir @ [''src'', ''{{MODULE_NAME}}'']) (target_dir @ [''src'', mn])"
      using assms(1) by auto
    then have "path_exists (remove fs2 (target_dir @ [''src'', ''{{MODULE_NAME}}''])) (target_dir @ [''src'', mn])
               = path_exists fs2 (target_dir @ [''src'', mn])"
      by (rule exists_remove_other)
    ultimately show ?thesis
      using e2 by simp
  qed
qed

section \<open>Claims about the module directory\<close>

text \<open>
  C6. For a module identifier of the derived shape: when \<open>src/<module>\<close> exists under
  the target, \<open>fix_src_layout\<close> raises nothing and returns the tree as it is; and after
  a run that returns, \<open>src/<module>\<close> exists, so a second run is such a no-op and
  leaves the tree of the first.
\<close>

theorem fix_src_layout_idempotent:
  assumes "module_identifier_shape mn"
  shows "(path_exists fs (target_dir @ [''src'', mn])
            \<longrightarrow> fix_src_layout template_dir fs target_dir mn = Inr fs)
     \<and> (\<forall>fs'. fix_src_layout template_dir fs target_dir mn = Inr fs'
            \<longrightarrow> path_exists fs' (target_dir @ [''src'', mn])
              \<and> fix_src_layout template_dir fs' target_dir mn = Inr fs')"
proof -
  have a: "fix_src_layout template_dir t target_dir mn = Inr t"
    if "path_exists t (target_dir @ [''src'', mn])" for t
    using that by (simp add: fix_src_layout_def)
  have b: "path_exists fs' (target_dir @ [''src'', mn])"
    if "fix_src_layout template_dir fs target_dir mn = Inr fs'" for fs'
    using module_name_is_not_the_token [OF assms] that by (rule fix_src_layout_exists)
  show ?thesis
    using a b by blast
qed

theorem fix_src_layout_idempotent_witness:
  "module_identifier_shape ''demo_app''
   \<and> fix_src_layout [''tpl''] example_tree [''out''] ''demo_app'' = Inr example_fixed
   \<and> path_exists example_fixed [''out'', ''src'', ''demo_app'']
   \<and> fix_src_layout [''tpl''] example_fixed [''out''] ''demo_app'' = Inr example_fixed"
proof -
  have h: "module_identifier_shape ''demo_app''"
    by code_simp
  have r: "fix_src_layout [''tpl''] example_tree [''out''] ''demo_app'' = Inr example_fixed"
    by code_simp
  show ?thesis
    using h r fix_src_layout_idempotent [OF h, of example_tree "[''out'']" "[''tpl'']"]
    by simp
qed

section \<open>Facts about paths in the file tree\<close>


lemma stat_lookup: "stat fs p = Inr n \<longleftrightarrow> lookup fs p = Some n"
  by (induction fs p rule: stat.induct) (auto split: option.splits)

lemma lookup_append:
  "lookup fs (p @ q) = (case lookup fs p of None \<Rightarrow> None | Some c \<Rightarrow> lookup c q)"
  by (induction fs p rule: lookup.induct) (auto split: option.splits)

lemma path_exists_prefix: "path_exists fs (p @ q) \<Longrightarrow> path_exists fs p"
  by (auto simp: path_exists_def lookup_append split: option.splits)

lemma path_exists_append:
  "lookup fs p = Some n \<Longrightarrow> path_exists fs (p @ q) = path_exists n q"
  by (simp add: path_exists_def lookup_append)

lemma remove_gone: "src \<noteq> [] \<Longrightarrow> prefix src p \<Longrightarrow> \<not> path_exists (remove fs src) p"
  unfolding path_exists_def
proof (induction fs src arbitrary: p rule: remove.induct)
  case (1 n)
  then show ?case by simp
next
  case (2 f x q)
  then show ?case by (auto simp: prefix_def)
next
  case (3 es x)
  then show ?case
    by (auto simp: prefix_def delete_conv')
next
  case (4 es x y q)
  then show ?case
    by (cases p) (auto simp: update_conv' split: option.splits)
qed

lemma put_other:
  "put fs dst n = Inr fs' \<Longrightarrow> \<not> prefix dst p \<Longrightarrow> \<not> prefix p dst \<Longrightarrow> lookup fs' p = lookup fs p"
proof (induction fs dst n arbitrary: fs' p rule: put.induct)
  case (1 fs n)
  then show ?case by simp
next
  case (2 f x q n)
  then show ?case by simp
next
  case (3 es x q n)
  from "3.prems"(1) obtain c' where
    c': "put (case map_of es x of None \<Rightarrow> Dir [] | Some c \<Rightarrow> c) q n = Inr c'"
    and fs': "fs' = Dir (AList.update x c' es)"
    by (auto split: sum.splits)
  from "3.prems"(3) obtain y p' where p: "p = y # p'"
    by (cases p) auto
  show ?case
  proof (cases "y = x")
    case False
    then show ?thesis
      by (simp add: p fs' update_conv')
  next
    case True
    with "3.prems"(2,3) p have np: "\<not> prefix q p'" "\<not> prefix p' q"
      by auto
    from "3.IH" [OF c' np]
    have "lookup c' p' = lookup (case map_of es x of None \<Rightarrow> Dir [] | Some c \<Rightarrow> c) p'" .
    moreover have "p' \<noteq> []"
      using np(2) by auto
    then have "lookup (Dir []) p' = None"
      by (cases p') auto
    ultimately show ?thesis
      by (auto simp: p fs' True update_conv' split: option.splits)
  qed
qed

section \<open>Facts about the two walks\<close>

lemma substitute_characterised:
  "substitute_tree table root n = (n', msgs) \<Longrightarrow>
     files_of root n' = map (substituted table) (files_of root n)
     \<and> msgs = concat (map (warning_for table) (files_of root n))
     \<and> names_of n' = names_of n"
  "substitute_entries table root es = (es', w_files, w_dirs) \<Longrightarrow>
     files_here root es' = map (substituted table) (files_here root es)
     \<and> w_files = concat (map (warning_for table) (files_here root es))
     \<and> files_below root es' = map (substituted table) (files_below root es)
     \<and> w_dirs = concat (map (warning_for table) (files_below root es))
     \<and> names_of_entries es' = names_of_entries es"
proof (induction table root n and table root es arbitrary: n' msgs and es' w_files w_dirs
    rule: substitute_tree_substitute_entries.induct)
  case (1 table root f)
  then show ?case by auto
next
  case (2 table root es)
  then show ?case by (auto split: prod.splits)
next
  case (3 table root)
  then show ?case by auto
next
  case (4 table root n f es)
  then show ?case
    by (auto split: prod.splits sum.splits if_splits
        simp: substituted_def warning_for_def replace_in_file_def)
next
  case (5 table root n ds es)
  then show ?case
    by (auto split: prod.splits)
qed

lemma set_names_of_entries:
  "set (names_of_entries es) = fst ` set es \<union> (\<Union>c \<in> snd ` set es. set (names_of c))"
  by (induction es) force+

lemma lookup_replace_at:
  "lookup fs p = Some x \<Longrightarrow> lookup (replace_at fs p n) p = Some n"
proof (induction fs p n arbitrary: x rule: replace_at.induct)
  case (3 es y p n)
  then show ?case
    by (auto simp: update_conv' split: option.splits)
qed auto

lemma files_of_last:
  "(p, f) \<in> set (files_of root n) \<Longrightarrow> p \<noteq> []"
  "(p, f) \<in> set (files_below root es) \<Longrightarrow> p \<noteq> []"
proof (induction root n and root es rule: files_of_files_below.induct)
  case (2 root es)
  have "p \<noteq> []" if "(p, f) \<in> set (files_here root es)"
    using that by (induction root es rule: files_here.induct) auto
  with 2 show ?case by auto
qed auto

lemma warned_iff: "warned msgs p \<longleftrightarrow> (\<exists>e. Warning p e \<in> set msgs)"
proof
  assume "warned msgs p"
  then obtain w where w: "w \<in> set msgs" "case w of Warning q e \<Rightarrow> q = p"
    by (auto simp: warned_def list_ex_iff)
  obtain q e where "w = Warning q e"
    by (cases w)
  with w show "\<exists>e. Warning p e \<in> set msgs"
    by auto
next
  assume "\<exists>e. Warning p e \<in> set msgs"
  then show "warned msgs p"
    by (force simp: warned_def list_ex_iff)
qed

lemma warning_for_in:
  assumes "(p, f) \<in> set fs" and "text_file_name (last p)" and "replace_in_file_try table f = Inl e"
  shows "Warning p e \<in> set (concat (map (warning_for table) fs))"
proof -
  have "Warning p e \<in> set (warning_for table (p, f))"
    using assms(2,3) by (simp add: warning_for_def)
  with assms(1) show ?thesis
    by auto
qed

lemma substitute_contents_lookup:
  assumes "lookup fs target_dir = Some n" and "substitute_contents fs target_dir table = (fs', msgs)"
  shows "\<exists>n'. substitute_tree table target_dir n = (n', msgs) \<and> lookup fs' target_dir = Some n'"
proof (cases n)
  case (File f)
  with assms show ?thesis
    by (auto simp: substitute_contents_def)
next
  case (Dir es)
  obtain n' w where st: "substitute_tree table target_dir n = (n', w)"
    by (cases "substitute_tree table target_dir n")
  with assms Dir have fs': "fs' = replace_at fs target_dir n'" and w: "msgs = w"
    by (auto simp: substitute_contents_def)
  have "lookup fs' target_dir = Some n'"
    unfolding fs' using assms(1) by (rule lookup_replace_at)
  with st w show ?thesis by blast
qed

section \<open>Claims about the two walks\<close>

text \<open>
  C8. The content walk over the target never raises. The files of the target after the
  walk are those before it, at the same paths and in the same order: a file with a
  listed extension whose read, decoding or write fails is left as it was, and a warning
  with its path and its error is printed; every other file with a listed extension
  holds the substituted text, whatever happened to the files before it.
\<close>

theorem content_substitution_is_best_effort:
  assumes "lookup fs target_dir = Some n"
    and "substitute_contents fs target_dir table = (fs', msgs)"
  shows "\<exists>n'. lookup fs' target_dir = Some n'
     \<and> files_of target_dir n' = map (substituted table) (files_of target_dir n)
     \<and> msgs = concat (map (warning_for table) (files_of target_dir n))
     \<and> (\<forall>p f e. (p, f) \<in> set (files_of target_dir n) \<and> text_file_name (last p)
            \<and> replace_in_file_try table f = Inl e
          \<longrightarrow> Warning p e \<in> set msgs \<and> (p, f) \<in> set (files_of target_dir n'))
     \<and> (\<forall>p f f'. (p, f) \<in> set (files_of target_dir n) \<and> text_file_name (last p)
            \<and> replace_in_file_try table f = Inr f'
          \<longrightarrow> (p, f') \<in> set (files_of target_dir n'))"
proof (cases n)
  case (File f)
  with assms have "fs' = fs" and "msgs = []"
    by (auto simp: substitute_contents_def)
  with assms(1) File show ?thesis
    by simp
next
  case (Dir es)
  obtain n' w where st: "substitute_tree table target_dir (Dir es) = (n', w)"
    by (cases "substitute_tree table target_dir (Dir es)")
  with assms Dir have fs': "fs' = replace_at fs target_dir n'" and w: "msgs = w"
    by (auto simp: substitute_contents_def)
  have l: "lookup fs' target_dir = Some n'"
    unfolding fs' using assms(1) by (rule lookup_replace_at)
  from substitute_characterised(1) [OF st]
  have files: "files_of target_dir n' = map (substituted table) (files_of target_dir n)"
    and msgs: "msgs = concat (map (warning_for table) (files_of target_dir n))"
    by (simp_all add: Dir w)
  have bad: "Warning p e \<in> set msgs \<and> (p, f) \<in> set (files_of target_dir n')"
    if "(p, f) \<in> set (files_of target_dir n)" "text_file_name (last p)"
      "replace_in_file_try table f = Inl e" for p f e
  proof -
    have "substituted table (p, f) = (p, f)"
      using that(2,3) by (simp add: substituted_def)
    then have "(p, f) \<in> set (files_of target_dir n')"
      unfolding files using that(1) by force
    moreover have "Warning p e \<in> set msgs"
      unfolding msgs using that by (rule warning_for_in)
    ultimately show ?thesis by simp
  qed
  have good: "(p, f') \<in> set (files_of target_dir n')"
    if "(p, f) \<in> set (files_of target_dir n)" "text_file_name (last p)"
      "replace_in_file_try table f = Inr f'" for p f f'
  proof -
    have "substituted table (p, f) = (p, f')"
      using that(2,3) by (simp add: substituted_def)
    then show ?thesis
      unfolding files using that(1) by force
  qed
  show ?thesis
    using l files msgs bad good by blast
qed

theorem content_substitution_is_best_effort_witness:
  "lookup example_tree [''tpl''] = Some example_template
   \<and> (case substitute_contents example_tree [''tpl''] (replacements demo_metadata) of
        (fs', msgs) \<Rightarrow>
          msgs = [Warning [''tpl'', ''logo.txt''] UnicodeDecodeError]
          \<and> lookup fs' [''tpl'', ''logo.txt''] = Some binary_file
          \<and> lookup fs' [''tpl'', ''src'', ''{{MODULE_NAME}}'', ''{{MODULE_NAME}}_config.py'']
              = Some (text_file ''module = demo_app''))"
proof -
  obtain fs' msgs where
    s: "substitute_contents example_tree [''tpl''] (replacements demo_metadata) = (fs', msgs)"
    by (cases "substitute_contents example_tree [''tpl''] (replacements demo_metadata)")
  have l: "lookup example_tree [''tpl''] = Some example_template"
    by code_simp
  have f: "([''tpl'', ''logo.txt''], \<lparr>decoded = None, readable = True, writable = True\<rparr>)
           \<in> set (files_of [''tpl''] example_template)"
    by code_simp
  have t: "text_file_name (last [''tpl'', ''logo.txt''])"
    by code_simp
  have e: "replace_in_file_try (replacements demo_metadata)
             \<lparr>decoded = None, readable = True, writable = True\<rparr> = Inl UnicodeDecodeError"
    by code_simp
  have "Warning [''tpl'', ''logo.txt''] UnicodeDecodeError \<in> set msgs"
    using content_substitution_is_best_effort [OF l s] f t e by blast
  moreover have "(case substitute_contents example_tree [''tpl''] (replacements demo_metadata) of
        (fs', msgs) \<Rightarrow>
          msgs = [Warning [''tpl'', ''logo.txt''] UnicodeDecodeError]
          \<and> lookup fs' [''tpl'', ''logo.txt''] = Some binary_file
          \<and> lookup fs' [''tpl'', ''src'', ''{{MODULE_NAME}}'', ''{{MODULE_NAME}}_config.py'']
              = Some (text_file ''module = demo_app''))"
    by code_simp
  ultimately show ?thesis
    using l by simp
qed

section \<open>Facts about renaming\<close>


lemma os_rename_moved:
  assumes "os_rename fs src dst = Inr fs'" and "src \<noteq> dst"
  shows "\<exists>n. lookup fs src = Some n \<and> dst \<noteq> [] \<and> path_exists fs (butlast dst)
           \<and> \<not> prefix src dst \<and> \<not> prefix dst src \<and> put (remove fs src) dst n = Inr fs'"
proof -
  from assms obtain n where n: "stat fs src = Inr n"
    by (auto simp: os_rename_def split: sum.splits)
  then have l: "lookup fs src = Some n"
    by (simp add: stat_lookup)
  from assms n have d: "dst \<noteq> []"
    by (auto simp: os_rename_def split: if_splits)
  from assms n d obtain ps where "stat fs (butlast dst) = Inr (Dir ps)"
    by (auto simp: os_rename_def split: sum.splits node.splits)
  then have b: "path_exists fs (butlast dst)"
    by (simp add: stat_lookup path_exists_def)
  from assms n d have np: "\<not> prefix src dst"
    by (auto simp: os_rename_def split: sum.splits node.splits if_splits)
  have nq: "\<not> prefix dst src"
  proof
    assume "prefix dst src"
    then obtain zs where "src = dst @ zs"
      by (auto simp: prefix_def)
    moreover from this assms(2) have "zs \<noteq> []"
      by auto
    ultimately obtain x r where src: "src = dst @ x # r"
      by (cases zs) auto
    with l obtain c where c: "lookup fs dst = Some c" and r: "lookup c (x # r) = Some n"
      by (auto simp: lookup_append split: option.splits)
    then obtain ds where ds: "c = Dir ds" and "ds \<noteq> []"
      by (cases c) (force split: option.splits)+
    with c have "stat fs dst = Inr (Dir ds)"
      by (simp add: stat_lookup)
    with assms n d np \<open>ds \<noteq> []\<close> show False
      by (auto simp: os_rename_def split: sum.splits node.splits if_splits)
  qed
  from assms n d np have "put (remove fs src) dst n = Inr fs'"
    by (auto simp: os_rename_def split: sum.splits node.splits if_splits)
  with l d b np nq show ?thesis
    by blast
qed

lemma os_rename_paths:
  assumes "os_rename fs src dst = Inr fs'" and "src \<noteq> dst" and "src \<noteq> []"
    and "path_exists fs' p"
  shows "(\<exists>r. p = dst @ r \<and> path_exists fs (src @ r))
       \<or> (path_exists fs p \<and> \<not> prefix src p)"
proof -
  from os_rename_moved [OF assms(1,2)] obtain n where l: "lookup fs src = Some n"
    and d: "dst \<noteq> []" and b: "path_exists fs (butlast dst)"
    and np: "\<not> prefix src dst" and put: "put (remove fs src) dst n = Inr fs'"
    by blast
  have ld: "lookup fs' dst = Some n"
    using put by (rule lookup_put)
  consider (below) "prefix dst p" | (above) "\<not> prefix dst p" "prefix p dst"
    | (other) "\<not> prefix dst p" "\<not> prefix p dst"
    by blast
  then show ?thesis
  proof cases
    case below
    then obtain r where p: "p = dst @ r"
      by (auto simp: prefix_def)
    with assms(4) ld have "path_exists n r"
      by (simp add: path_exists_append)
    with l have "path_exists fs (src @ r)"
      by (simp add: path_exists_append)
    with p show ?thesis by blast
  next
    case above
    then have "prefix p (butlast dst)"
      using d by (metis prefix_snoc snoc_eq_iff_butlast)
    then have "path_exists fs p"
      using b by (auto simp: prefix_def dest: path_exists_prefix)
    moreover have "\<not> prefix src p"
      using above(2) np by (meson prefix_order.order_trans)
    ultimately show ?thesis by blast
  next
    case other
    from put_other [OF put other] assms(4) have e: "path_exists (remove fs src) p"
      by (simp add: path_exists_def)
    have ns: "\<not> prefix src p"
      using remove_gone [OF assms(3)] e by blast
    then have "path_exists (remove fs src) p = path_exists fs p"
      by (rule exists_remove_other)
    with e ns show ?thesis by blast
  qed
qed



lemma os_rename_step:
  assumes r: "os_rename fs src dst = Inr fs'" and under: "strict_prefix base src"
    and ne: "src \<noteq> dst"
    and inv: "\<forall>p. entry_below fs base p \<longrightarrow> no_nested_token (last p)"
    and clean: "\<not> has_placeholder (last dst)"
    and sub: "\<forall>p. strict_prefix src p \<and> path_exists fs p \<longrightarrow> \<not> has_placeholder (last p)"
  shows "(\<forall>p. entry_below fs' base p \<longrightarrow> no_nested_token (last p))
       \<and> (\<forall>p. unrenamed_below fs' base p \<longrightarrow> unrenamed_below fs base p \<and> p \<noteq> src)"
proof -
  have s: "src \<noteq> []"
    using under by auto
  have main: "no_nested_token (last p)
              \<and> (has_placeholder (last p) \<longrightarrow> entry_below fs base p \<and> p \<noteq> src)"
    if e: "entry_below fs' base p" for p
  proof -
    from e have pe: "path_exists fs' p" and bp: "strict_prefix base p"
      by (simp_all add: entry_below_def)
    from os_rename_paths [OF r ne s pe]
    consider rest where "p = dst @ rest" "path_exists fs (src @ rest)"
      | "path_exists fs p" "\<not> prefix src p"
      by blast
    then show ?thesis
    proof cases
      case 1
      show ?thesis
      proof (cases "rest = []")
        case True
        with 1 clean show ?thesis
          by (simp add: no_placeholder_no_nested)
      next
        case False
        then have l: "last p = last (src @ rest)"
          by (simp add: 1)
        have sp: "strict_prefix src (src @ rest)"
          using False by (simp add: strict_prefix_def)
        with under have "strict_prefix base (src @ rest)"
          by (meson prefix_order.less_trans)
        with 1 have "entry_below fs base (src @ rest)"
          by (simp add: entry_below_def)
        with inv have "no_nested_token (last (src @ rest))"
          by blast
        moreover from sub sp 1 have "\<not> has_placeholder (last (src @ rest))"
          by blast
        ultimately show ?thesis
          by (simp add: l)
      qed
    next
      case 2
      with bp have "entry_below fs base p"
        by (simp add: entry_below_def)
      moreover from 2 have "p \<noteq> src"
        by auto
      ultimately show ?thesis
        using inv by blast
    qed
  qed
  then show ?thesis
    by (auto simp: unrenamed_below_def)
qed

lemma path_parts_sublist: "c \<in> set (path_parts s) \<Longrightarrow> sublist c s"
  by (auto simp: path_parts_def dest: split_on_sublist)

lemma sublist_no_placeholder: "sublist c s \<Longrightarrow> \<not> has_placeholder s \<Longrightarrow> \<not> has_placeholder c"
  by (auto simp: has_placeholder_def list_ex_iff dest: sublist_order.order_trans)

lemma rename_entry_step:
  assumes r: "rename_entry fs here name new_name = Inr fs'" and under: "prefix base here"
    and inv: "\<forall>p. entry_below fs base p \<longrightarrow> no_nested_token (last p)"
    and old: "has_placeholder name" and new: "\<not> has_placeholder new_name"
    and sub: "\<forall>p. strict_prefix (here @ [name]) p \<and> path_exists fs p \<longrightarrow> \<not> has_placeholder (last p)"
  shows "(\<forall>p. entry_below fs' base p \<longrightarrow> no_nested_token (last p))
       \<and> (\<forall>p. unrenamed_below fs' base p \<longrightarrow> unrenamed_below fs base p \<and> p \<noteq> here @ [name])"
proof -
  from r obtain dst where d: "rename_destination fs here new_name = Inr dst"
    and o: "os_rename fs (here @ [name]) dst = Inr fs'"
    by (auto simp: rename_entry_def split: sum.splits)
  have us: "strict_prefix base (here @ [name])"
    using under by (auto simp: strict_prefix_def prefix_def)
  have c: "(\<not> has_placeholder (last dst) \<and> dst \<noteq> []) \<or> strict_prefix dst (here @ [name])"
  proof (cases "rev (path_parts new_name)")
    case Nil
    with d have "dst = start_of here new_name"
      by (simp add: rename_destination_def)
    then have "strict_prefix dst (here @ [name])"
      by (auto simp: start_of_def strict_prefix_def)
    then show ?thesis ..
  next
    case (Cons x rparent)
    with d obtain q where "dst = q @ [x]"
      by (auto simp: rename_destination_def split: if_splits sum.splits)
    moreover have "x \<in> set (path_parts new_name)"
      using Cons by (metis list.set_intros(1) set_rev)
    then have "\<not> has_placeholder x"
      using new path_parts_sublist sublist_no_placeholder by blast
    ultimately show ?thesis
      by simp
  qed
  have ne: "here @ [name] \<noteq> dst"
    using c old by auto
  from os_rename_moved [OF o ne] have "\<not> prefix dst (here @ [name])"
    by blast
  with c have "\<not> has_placeholder (last dst)"
    by (auto simp: strict_prefix_def)
  with o us ne inv show ?thesis
    using sub by (rule os_rename_step)
qed



lemma rename_entry_exists:
  "rename_entry fs here name new_name = Inr fs' \<Longrightarrow> path_exists fs (here @ [name])"
  by (auto simp: rename_entry_def os_rename_def path_exists_def stat_lookup
      split: sum.splits)

lemma rename_names_step:
  assumes "usable_values (replacements m)"
    and "rename_names (replacements m) here names fs = Inr fs'"
    and "prefix base here"
    and "\<forall>p. entry_below fs base p \<longrightarrow> no_nested_token (last p)"
    and "\<forall>p. unrenamed_below fs base p \<and> strict_prefix here p \<longrightarrow> length p = Suc (length here)"
  shows "(\<forall>p. entry_below fs' base p \<longrightarrow> no_nested_token (last p))
       \<and> (\<forall>p. unrenamed_below fs' base p
              \<longrightarrow> unrenamed_below fs base p \<and> (\<forall>name \<in> set names. p \<noteq> here @ [name]))"
  using assms(2,4,5)
proof (induction names arbitrary: fs)
  case Nil
  then show ?case by simp
next
  case (Cons name names)
  let ?new = "apply_replacements (replacements m) name"
  have us: "strict_prefix base (here @ [name])"
    using assms(3) by (auto simp: strict_prefix_def prefix_def)
  show ?case
  proof (cases "?new = name")
    case True
    with Cons.prems(1) have "rename_names (replacements m) here names fs = Inr fs'"
      by simp
    from Cons.IH [OF this Cons.prems(2,3)]
    have inv': "\<forall>p. entry_below fs' base p \<longrightarrow> no_nested_token (last p)"
      and d: "\<forall>p. unrenamed_below fs' base p
              \<longrightarrow> unrenamed_below fs base p \<and> (\<forall>name \<in> set names. p \<noteq> here @ [name])"
      by blast+
    have "\<not> unrenamed_below fs base (here @ [name])"
    proof
      assume u: "unrenamed_below fs base (here @ [name])"
      then have "no_nested_token name"
        using Cons.prems(2) by (auto simp: unrenamed_below_def)
      with assms(1) have "\<not> has_placeholder ?new"
        by (rule usable_no_placeholder)
      with True u show False
        by (simp add: unrenamed_below_def)
    qed
    with inv' d show ?thesis
      by auto
  next
    case False
    with Cons.prems(1) obtain fs1 where r: "rename_entry fs here name ?new = Inr fs1"
      and rest: "rename_names (replacements m) here names fs1 = Inr fs'"
      by (auto simp: Let_def split: sum.splits)
    have old: "has_placeholder name"
      using False apply_without_placeholder [of "replacements m" name]
      by (auto simp: replacements_keys)
    have "entry_below fs base (here @ [name])"
      using rename_entry_exists [OF r] us by (simp add: entry_below_def)
    then have "no_nested_token name"
      using Cons.prems(2) by fastforce
    with assms(1) have new: "\<not> has_placeholder ?new"
      by (rule usable_no_placeholder)
    have sub: "\<forall>p. strict_prefix (here @ [name]) p \<and> path_exists fs p \<longrightarrow> \<not> has_placeholder (last p)"
    proof (intro allI impI notI)
      fix p
      assume a: "strict_prefix (here @ [name]) p \<and> path_exists fs p" and h: "has_placeholder (last p)"
      then have "strict_prefix base p"
        using us by (meson prefix_order.less_trans)
      with a h have "unrenamed_below fs base p"
        by (simp add: unrenamed_below_def entry_below_def)
      moreover have sh: "strict_prefix here p"
        using a by (auto simp: strict_prefix_def prefix_def)
      ultimately have "length p = Suc (length here)"
        using Cons.prems(3) by blast
      with a show False
        by (auto simp: strict_prefix_def prefix_def)
    qed
    from rename_entry_step [OF r assms(3) Cons.prems(2) old new sub]
    have inv1: "\<forall>p. entry_below fs1 base p \<longrightarrow> no_nested_token (last p)"
      and d1: "\<forall>p. unrenamed_below fs1 base p \<longrightarrow> unrenamed_below fs base p \<and> p \<noteq> here @ [name]"
      by blast+
    have dir1: "\<forall>p. unrenamed_below fs1 base p \<and> strict_prefix here p \<longrightarrow> length p = Suc (length here)"
      using d1 Cons.prems(3) by blast
    from Cons.IH [OF rest inv1 dir1] d1 show ?thesis
      by auto
  qed
qed

section \<open>Facts about the run\<close>

lemma create_target_populated:
  "stat_path fs cwd target = Inr (Dir es) \<Longrightarrow> es \<noteq> [] \<Longrightarrow>
     create_target fs cwd target = Inl (Exited 1 fs)"
  by (simp add: create_target_def)

text \<open>
  A target that is typed through a directory that does not exist: \<open>/out/sub/..\<close>
  resolves to the populated \<open>/out\<close>, but as typed it does not exist, and making it
  raises \<open>FileExistsError\<close> once \<open>/out/sub\<close> is there.
\<close>

lemma typed_target_through_missing_directory:
  "setup_project bare_address [''tpl''] [''tpl''] example_tree
     [''demo-app'', '''', '''', '''', '''', ''y'', ''/out/sub/..''] = Raised FileExistsError"
  by code_simp

section \<open>Claims about the target directory\<close>



text \<open>
  C1. What the script does where the claim lets the run proceed in place. When the target
  resolves to the current directory, that is the directory of the script, and the
  target as typed exists and is that directory (which holds the script, so it is not
  empty), the run exits with status 1 and an unchanged tree whatever the answer to the
  second confirmation is, \<open>yes\<close> included: the check for a populated target comes after
  the confirmation and stops the run, and the branch that skips the copy is never
  reached.
\<close>

theorem in_place_run_exits:
  assumes "collect_metadata parseaddr ins
           = Inr (m, answer # target_dir_input # confirm_current # rest)"
    and "lower (strip answer) \<in> set [''y'', ''yes'']"
    and "target = (if strip target_dir_input = [] then ''./'' @ project_name m
                   else strip target_dir_input)"
    and "resolve cwd target = cwd"
    and "cwd = template_dir"
    and "stat_path fs cwd target = Inr (Dir es)"
    and "map_of es ''setup_project.py'' = Some script"
  shows "setup_project parseaddr cwd template_dir fs ins = Exited 1 fs"
proof -
  have ne: "es \<noteq> []"
    using assms(7) by auto
  have t: "create_target fs cwd target = Inl (Exited 1 fs)"
    using assms(6) ne by (rule create_target_populated)
  have c: "check_current_directory fs cwd cwd (confirm_current # rest) = Inl (Exited 1 fs)
           \<or> check_current_directory fs cwd cwd (confirm_current # rest) = Inr rest"
    by (simp add: check_current_directory_def)
  then show ?thesis
  proof
    assume "check_current_directory fs cwd cwd (confirm_current # rest) = Inl (Exited 1 fs)"
    then show ?thesis
      using assms(2) unfolding setup_project_def assms(1)
      by (simp add: Let_def assms(3) [symmetric] assms(4))
  next
    assume "check_current_directory fs cwd cwd (confirm_current # rest) = Inr rest"
    then show ?thesis
      using assms(2) unfolding setup_project_def assms(1)
      by (simp add: Let_def assms(3) [symmetric] assms(4) t)
  qed
qed

theorem in_place_run_exits_witness:
  "collect_metadata bare_address [''demo-app'', '''', '''', '''', '''', ''y'', ''.'', ''yes'']
     = Inr (demo_metadata, [''y'', ''.'', ''yes''])
   \<and> lower (strip ''y'') \<in> set [''y'', ''yes'']
   \<and> resolve [''tpl''] (strip ''.'') = [''tpl'']
   \<and> lower (strip ''yes'') = ''yes''
   \<and> stat_path example_tree [''tpl''] (strip ''.'') = Inr example_template
   \<and> setup_project bare_address [''tpl''] [''tpl''] example_tree
        [''demo-app'', '''', '''', '''', '''', ''y'', ''.'', ''yes''] = Exited 1 example_tree"
proof -
  have h1: "collect_metadata bare_address [''demo-app'', '''', '''', '''', '''', ''y'', ''.'', ''yes'']
     = Inr (demo_metadata, [''y'', ''.'', ''yes''])"
    by code_simp
  have h2: "lower (strip ''y'') \<in> set [''y'', ''yes'']"
    by code_simp
  have r: "resolve [''tpl''] (strip ''.'') = [''tpl'']"
    by code_simp
  have s: "strip ''.'' \<noteq> []"
    by code_simp
  have h3: "strip ''.'' = (if strip ''.'' = [] then ''./'' @ project_name demo_metadata
                            else strip ''.'')"
    using s by simp
  have y: "lower (strip ''yes'') = ''yes''"
    by code_simp
  have h5: "stat_path example_tree [''tpl''] (strip ''.'')
            = Inr (Dir [(''setup_project.py'', text_file ''import os''),
                        (''README.md'', text_file ''{{PROJECT_NAME}} by {{AUTHOR_NAME}}''),
                        (''logo.txt'', binary_file),
                        (''src'', Dir [(''{{MODULE_NAME}}'', example_module)])])"
    by code_simp
  have h6: "map_of [(''setup_project.py'', text_file ''import os''),
                    (''README.md'', text_file ''{{PROJECT_NAME}} by {{AUTHOR_NAME}}''),
                    (''logo.txt'', binary_file),
                    (''src'', Dir [(''{{MODULE_NAME}}'', example_module)])] ''setup_project.py''
            = Some (text_file ''import os'')"
    by simp
  have l: "stat_path example_tree [''tpl''] (strip ''.'') = Inr example_template"
    by code_simp
  show ?thesis
    using h1 h2 r y l in_place_run_exits [OF h1 h2 h3 r refl h5 h6]
    by simp
qed

end
